theory Spec2Isabelle
  imports Main "HOL-Library.Word" "HOL-Library.Monad_Syntax"
begin

section \<open>The process manager of process.c\<close>

text \<open>
  The process manager keeps its Process structures in memory obtained from
  \<^verbatim>\<open>memory_alloc\<close> and links them into three intrusive doubly-linked queues through
  their \<^verbatim>\<open>next\<close> and \<^verbatim>\<open>prev\<close> pointers. The embedding keeps the pointers: a pointer is
  a 32-bit word, 0 is NULL, and the store maps the address of every allocated Process
  structure to its contents. Every operation returns an option: \<open>None\<close> stands for
  undefined behaviour of the C code (a dereference of NULL or of a structure that has been
  freed), for a loop that never ends, and for the kernel panic of the initialisation.
  Console output (\<^verbatim>\<open>kprintf\<close>) is not modelled.
\<close>

subsection \<open>Data\<close>

type_synonym u32 = "32 word"
type_synonym addr = "32 word"

datatype ProcessState =
    PROC_STATE_NEW
  | PROC_STATE_READY
  | PROC_STATE_RUNNING
  | PROC_STATE_BLOCKED
  | PROC_STATE_SUSPENDED
  | PROC_STATE_ZOMBIE
  | PROC_STATE_DEAD

datatype ErrorCode = ERR_SUCCESS | ERR_INVALID_ARG

text \<open>
  The struct \<^verbatim>\<open>Process\<close> is declared in process.h, which is not part of the sources;
  its fields are the ones process.c uses. The fields \<^verbatim>\<open>next\<close> and \<^verbatim>\<open>prev\<close> are
  \<open>nextp\<close> and \<open>prevp\<close> here. The register array has the 16 entries that
  \<^verbatim>\<open>process_init_context\<close> initialises.
\<close>

record Process =
  pid :: u32
  name :: string
  state :: ProcessState
  priority :: u32
  entry_point :: u32
  stack_base :: u32
  stack_size :: u32
  heap_base :: u32
  heap_size :: u32
  registers :: "u32 list"
  nextp :: addr
  prevp :: addr

text \<open>
  The static variables of process.c, the static \<^verbatim>\<open>last\<close> of
  \<^verbatim>\<open>scheduler_select_next\<close> (\<open>lastp\<close>), the global \<^verbatim>\<open>current_process\<close>, the live
  registers eax, ebx, ecx, edx, esi, edi, ebp, esp (\<open>cpu\<close>), the memory words written
  on process stacks (\<open>ram\<close>) and the sequence of addresses handed to
  \<^verbatim>\<open>memory_free\<close> so far (\<open>freed\<close>). The process table is a list of
  \<^verbatim>\<open>MAX_PROCESSES\<close> pointers.
\<close>

record kstate =
  store :: "addr \<Rightarrow> Process option"
  process_table :: "addr list"
  process_count :: u32
  next_pid :: u32
  ready_queue :: addr
  blocked_queue :: addr
  zombie_queue :: addr
  lastp :: addr
  current_process :: addr
  cpu :: "u32 list"
  ram :: "addr \<Rightarrow> u32"
  freed :: "addr list"

text \<open>
  Constants of kernel.h and process.h, which are not part of the sources: the size of the
  \<^verbatim>\<open>name\<close> array, the value of \<^verbatim>\<open>KB\<close>, and the address of
  \<^verbatim>\<open>process_exit_handler\<close>. They are parameters of the model.
\<close>

record kconsts =
  NAME_SIZE :: nat
  KB :: u32
  exit_handler_addr :: u32

definition zero_Process :: Process where
  "zero_Process = \<lparr> pid = 0, name = [], state = PROC_STATE_NEW, priority = 0,
     entry_point = 0, stack_base = 0, stack_size = 0, heap_base = 0, heap_size = 0,
     registers = replicate 16 0, nextp = 0, prevp = 0 \<rparr>"

text \<open>The state before \<^verbatim>\<open>process_manager_init\<close>: every static is zero, \<^verbatim>\<open>next_pid\<close> is 1.\<close>

definition boot_state :: "nat \<Rightarrow> kstate" where
  "boot_state max_processes = \<lparr> store = (\<lambda>_. None),
     process_table = replicate max_processes 0, process_count = 0, next_pid = 1,
     ready_queue = 0, blocked_queue = 0, zombie_queue = 0, lastp = 0,
     current_process = 0, cpu = replicate 8 0, ram = (\<lambda>_. 0), freed = [] \<rparr>"

subsection \<open>Memory access\<close>

definition deref :: "kstate \<Rightarrow> addr \<Rightarrow> Process option" where
  "deref s p = (if p = 0 then None else store s p)"

text \<open>A write to fields of the structure at \<open>p\<close>.\<close>

definition modify :: "addr \<Rightarrow> (Process \<Rightarrow> Process) \<Rightarrow> kstate \<Rightarrow> kstate option" where
  "modify p f s =
     (case deref s p of
        None \<Rightarrow> None
      | Some r \<Rightarrow> Some (s\<lparr>store := (store s)(p \<mapsto> f r)\<rparr>))"

text \<open>
  \<^verbatim>\<open>memory_free\<close> belongs to the memory module. Freeing an address ends the life of
  whatever structure is stored there and is recorded in the log.
\<close>

definition memory_free :: "addr \<Rightarrow> kstate \<Rightarrow> kstate" where
  "memory_free p s = s\<lparr>store := (store s)(p := None), freed := freed s @ [p]\<rparr>"

subsection \<open>Queues\<close>

text \<open>The \<^verbatim>\<open>Process** queue\<close> that the switch statements select.\<close>

datatype QueueRef = Q_READY | Q_BLOCKED | Q_ZOMBIE

fun queue_ref :: "ProcessState \<Rightarrow> QueueRef option" where
  "queue_ref PROC_STATE_READY = Some Q_READY"
| "queue_ref PROC_STATE_BLOCKED = Some Q_BLOCKED"
| "queue_ref PROC_STATE_ZOMBIE = Some Q_ZOMBIE"
| "queue_ref _ = None"

fun get_queue :: "QueueRef \<Rightarrow> kstate \<Rightarrow> addr" where
  "get_queue Q_READY s = ready_queue s"
| "get_queue Q_BLOCKED s = blocked_queue s"
| "get_queue Q_ZOMBIE s = zombie_queue s"

fun set_queue :: "QueueRef \<Rightarrow> addr \<Rightarrow> kstate \<Rightarrow> kstate" where
  "set_queue Q_READY v s = s\<lparr>ready_queue := v\<rparr>"
| "set_queue Q_BLOCKED v s = s\<lparr>blocked_queue := v\<rparr>"
| "set_queue Q_ZOMBIE v s = s\<lparr>zombie_queue := v\<rparr>"

definition process_remove_from_queue :: "kstate \<Rightarrow> addr \<Rightarrow> ProcessState \<Rightarrow> kstate option" where
  "process_remove_from_queue s proc st =
     (case queue_ref st of
        None \<Rightarrow> Some s
      | Some q \<Rightarrow> do {
          s1 \<leftarrow> (if get_queue q s = proc then do {
                   r \<leftarrow> deref s proc;
                   let s' = set_queue q (nextp r) s;
                   if get_queue q s' \<noteq> 0
                   then modify (get_queue q s') (\<lambda>x. x\<lparr>prevp := 0\<rparr>) s'
                   else Some s'
                 } else do {
                   r \<leftarrow> deref s proc;
                   s' \<leftarrow> (if prevp r \<noteq> 0
                          then modify (prevp r) (\<lambda>x. x\<lparr>nextp := nextp r\<rparr>) s
                          else Some s);
                   r' \<leftarrow> deref s' proc;
                   if nextp r' \<noteq> 0
                   then modify (nextp r') (\<lambda>x. x\<lparr>prevp := prevp r'\<rparr>) s'
                   else Some s'
                 });
          s2 \<leftarrow> modify proc (\<lambda>x. x\<lparr>prevp := 0\<rparr>) s1;
          modify proc (\<lambda>x. x\<lparr>nextp := 0\<rparr>) s2
        })"

definition process_add_to_queue :: "kstate \<Rightarrow> addr \<Rightarrow> ProcessState \<Rightarrow> kstate option" where
  "process_add_to_queue s proc st =
     (case queue_ref st of
        None \<Rightarrow> Some s
      | Some q \<Rightarrow> do {
          s1 \<leftarrow> modify proc (\<lambda>x. x\<lparr>nextp := get_queue q s\<rparr>) s;
          s2 \<leftarrow> modify proc (\<lambda>x. x\<lparr>prevp := 0\<rparr>) s1;
          s3 \<leftarrow> (if get_queue q s2 \<noteq> 0
                 then modify (get_queue q s2) (\<lambda>x. x\<lparr>prevp := proc\<rparr>) s2
                 else Some s2);
          Some (set_queue q proc s3)
        })"

definition process_set_state :: "kstate \<Rightarrow> addr \<Rightarrow> ProcessState \<Rightarrow> (ErrorCode \<times> kstate) option" where
  "process_set_state s proc new_state =
     (if proc = 0 then Some (ERR_INVALID_ARG, s)
      else do {
        r \<leftarrow> deref s proc;
        let old_state = state r;
        s1 \<leftarrow> modify proc (\<lambda>x. x\<lparr>state := new_state\<rparr>) s;
        s2 \<leftarrow> process_remove_from_queue s1 proc old_state;
        s3 \<leftarrow> process_add_to_queue s2 proc new_state;
        Some (ERR_SUCCESS, s3)
      })"

subsection \<open>Creation\<close>

text \<open>
  \<^verbatim>\<open>stack\<close> is a \<^verbatim>\<open>u32*\<close>, so each \<^verbatim>\<open>stack--\<close> moves it down by four bytes.
\<close>

definition process_init_context :: "kconsts \<Rightarrow> kstate \<Rightarrow> addr \<Rightarrow> kstate option" where
  "process_init_context K s proc = do {
     r \<leftarrow> deref s proc;
     let stack = stack_base r + stack_size r;
     let stack = stack - 4;
     let s1 = s\<lparr>ram := (ram s)(stack := exit_handler_addr K)\<rparr>;
     let stack = stack - 4;
     let s2 = s1\<lparr>ram := (ram s1)(stack := 0x202)\<rparr>;
     s3 \<leftarrow> modify proc (\<lambda>x. x\<lparr>registers := (registers x)[0 := entry_point x]\<rparr>) s2;
     s4 \<leftarrow> modify proc (\<lambda>x. x\<lparr>registers := (registers x)[1 := stack]\<rparr>) s3;
     modify proc (\<lambda>x. x\<lparr>registers := fold (\<lambda>i regs. regs[i := 0]) [2..<16] (registers x)\<rparr>) s4
   }"

text \<open>The loop that stores the new structure in the first free slot of the table.\<close>

fun table_insert :: "addr list \<Rightarrow> addr \<Rightarrow> addr list" where
  "table_insert [] p = []"
| "table_insert (x # xs) p = (if x = 0 then p # xs else x # table_insert xs p)"

text \<open>
  \<^verbatim>\<open>memory_alloc\<close> belongs to the memory module: the three addresses it returns, for the
  structure, the stack and the heap (0 when it fails), are arguments of the model. A
  later allocation is only made when the earlier ones succeeded.
\<close>

definition process_create ::
  "kconsts \<Rightarrow> kstate \<Rightarrow> string \<Rightarrow> u32 \<Rightarrow> u32 \<Rightarrow> addr \<times> addr \<times> addr \<Rightarrow> (addr \<times> kstate) option" where
  "process_create K s nm prio entry allocs =
     (case allocs of (a_proc, a_stack, a_heap) \<Rightarrow>
      if unat (process_count s) \<ge> length (process_table s) then Some (0, s)
      else let proc = a_proc in
      if proc = 0 then Some (0, s)
      else do {
        let s1 = s\<lparr>store := (store s)(proc \<mapsto> zero_Process)\<rparr>;
        s2 \<leftarrow> modify proc (\<lambda>x. x\<lparr>pid := next_pid s1\<rparr>) s1;
        let s3 = s2\<lparr>next_pid := next_pid s2 + 1\<rparr>;
        s4 \<leftarrow> modify proc (\<lambda>x. x\<lparr>name := take (NAME_SIZE K - 1) nm\<rparr>) s3;
        s5 \<leftarrow> modify proc (\<lambda>x. x\<lparr>state := PROC_STATE_NEW\<rparr>) s4;
        s6 \<leftarrow> modify proc (\<lambda>x. x\<lparr>priority := prio\<rparr>) s5;
        s7 \<leftarrow> modify proc (\<lambda>x. x\<lparr>entry_point := entry\<rparr>) s6;
        s8 \<leftarrow> modify proc (\<lambda>x. x\<lparr>stack_size := 16 * KB K\<rparr>) s7;
        s9 \<leftarrow> modify proc (\<lambda>x. x\<lparr>stack_base := a_stack\<rparr>) s8;
        r9 \<leftarrow> deref s9 proc;
        if stack_base r9 = 0 then Some (0, memory_free proc s9)
        else do {
          s10 \<leftarrow> modify proc (\<lambda>x. x\<lparr>heap_size := 64 * KB K\<rparr>) s9;
          s11 \<leftarrow> modify proc (\<lambda>x. x\<lparr>heap_base := a_heap\<rparr>) s10;
          r11 \<leftarrow> deref s11 proc;
          if heap_base r11 = 0
          then Some (0, memory_free proc (memory_free (stack_base r11) s11))
          else do {
            s12 \<leftarrow> process_init_context K s11 proc;
            let s13 = s12\<lparr>process_table := table_insert (process_table s12) proc\<rparr>;
            let s14 = s13\<lparr>process_count := process_count s13 + 1\<rparr>;
            (rc, s15) \<leftarrow> process_set_state s14 proc PROC_STATE_READY;
            Some (proc, s15)
          }
        }
      })"

text \<open>
  \<^verbatim>\<open>process_manager_init\<close> clears the table and the two counters and creates the idle
  process; it panics (\<open>None\<close>) when that fails.
\<close>

definition process_manager_init ::
  "kconsts \<Rightarrow> kstate \<Rightarrow> addr \<times> addr \<times> addr \<Rightarrow> (ErrorCode \<times> kstate) option" where
  "process_manager_init K s allocs = do {
     let s1 = s\<lparr>process_table := replicate (length (process_table s)) 0\<rparr>;
     let s2 = s1\<lparr>process_count := 0\<rparr>;
     let s3 = s2\<lparr>next_pid := 1\<rparr>;
     (idle, s4) \<leftarrow> process_create K s3 ''idle'' 0 0 allocs;
     if idle = 0 then None else Some (ERR_SUCCESS, s4)
   }"

subsection \<open>Lookup\<close>

fun find_name :: "(addr \<Rightarrow> Process option) \<Rightarrow> addr list \<Rightarrow> string \<Rightarrow> addr option" where
  "find_name h [] nm = Some 0"
| "find_name h (x # xs) nm =
     (if x \<noteq> 0 then
        (case h x of
           None \<Rightarrow> None
         | Some r \<Rightarrow> if name r = nm then Some x else find_name h xs nm)
      else find_name h xs nm)"

definition process_find :: "kstate \<Rightarrow> string \<Rightarrow> addr option" where
  "process_find s nm = find_name (store s) (process_table s) nm"

fun find_pid :: "(addr \<Rightarrow> Process option) \<Rightarrow> addr list \<Rightarrow> u32 \<Rightarrow> addr option" where
  "find_pid h [] n = Some 0"
| "find_pid h (x # xs) n =
     (if x \<noteq> 0 then
        (case h x of
           None \<Rightarrow> None
         | Some r \<Rightarrow> if pid r = n then Some x else find_pid h xs n)
      else find_pid h xs n)"

definition process_find_by_pid :: "kstate \<Rightarrow> u32 \<Rightarrow> addr option" where
  "process_find_by_pid s n = find_pid (store s) (process_table s) n"

definition process_get_current :: "kstate \<Rightarrow> addr" where
  "process_get_current s = current_process s"

definition process_set_current :: "kstate \<Rightarrow> addr \<Rightarrow> kstate" where
  "process_set_current s proc = s\<lparr>current_process := proc\<rparr>"

subsection \<open>Reaping\<close>

text \<open>The loop that clears the first slot of the table that holds \<open>p\<close>.\<close>

fun table_remove :: "addr list \<Rightarrow> addr \<Rightarrow> addr list" where
  "table_remove [] p = []"
| "table_remove (x # xs) p = (if x = p then 0 # xs else x # table_remove xs p)"

partial_function (option) reap_loop :: "kstate \<Rightarrow> addr \<Rightarrow> kstate option" where
  "reap_loop s cur =
     (if cur = 0 then Some s
      else do {
        r \<leftarrow> deref s cur;
        let next = nextp r;
        let s1 = (if stack_base r \<noteq> 0 then memory_free (stack_base r) s else s);
        r1 \<leftarrow> deref s1 cur;
        let s2 = (if heap_base r1 \<noteq> 0 then memory_free (heap_base r1) s1 else s1);
        let s3 = s2\<lparr>process_table := table_remove (process_table s2) cur\<rparr>;
        let s4 = memory_free cur s3;
        let s5 = s4\<lparr>process_count := process_count s4 - 1\<rparr>;
        reap_loop s5 next
      })"

declare reap_loop.simps [code]

definition process_reap_zombies :: "kstate \<Rightarrow> kstate option" where
  "process_reap_zombies s = do {
     s' \<leftarrow> reap_loop s (zombie_queue s);
     Some (s'\<lparr>zombie_queue := 0\<rparr>)
   }"

subsection \<open>Scheduling\<close>

text \<open>The loop \<^verbatim>\<open>while (next && next->state != PROC_STATE_READY) next = next->next\<close>.\<close>

partial_function (option) skip_not_ready :: "(addr \<Rightarrow> Process option) \<Rightarrow> addr \<Rightarrow> addr option" where
  "skip_not_ready h next =
     (if next = 0 then Some 0
      else (case h next of
              None \<Rightarrow> None
            | Some r \<Rightarrow>
                if state r \<noteq> PROC_STATE_READY then skip_not_ready h (nextp r)
                else Some next))"

declare skip_not_ready.simps [code]

definition scheduler_select_next :: "kstate \<Rightarrow> (addr \<times> kstate) option" where
  "scheduler_select_next s =
     (if ready_queue s = 0 then do {
        idle \<leftarrow> process_find s ''idle'';
        Some (idle, s)
      } else do {
        let s1 = (if lastp s = 0 then s\<lparr>lastp := ready_queue s\<rparr> else s);
        l \<leftarrow> deref s1 (lastp s1);
        next \<leftarrow> skip_not_ready (store s1) (nextp l);
        next \<leftarrow> (if next = 0 then skip_not_ready (store s1) (ready_queue s1) else Some next);
        if next \<noteq> 0 then Some (next, s1\<lparr>lastp := next\<rparr>)
        else do {
          idle \<leftarrow> process_find s1 ''idle'';
          Some (idle, s1)
        }
      })"

subsection \<open>Context switch\<close>

text \<open>
  \<^verbatim>\<open>process_save_context\<close> stores the eight live registers in the first eight entries of
  the register array; \<^verbatim>\<open>process_restore_context\<close> loads them back. The transfer of control
  by \<^verbatim>\<open>iret\<close> is outside the model: the statements of \<^verbatim>\<open>process_switch\<close> are taken in
  the order in which they are written.
\<close>

definition process_save_context :: "kstate \<Rightarrow> addr \<Rightarrow> kstate option" where
  "process_save_context s proc =
     modify proc (\<lambda>x. x\<lparr>registers := take 8 (cpu s) @ drop 8 (registers x)\<rparr>) s"

definition process_restore_context :: "kstate \<Rightarrow> addr \<Rightarrow> kstate option" where
  "process_restore_context s proc = do {
     r \<leftarrow> deref s proc;
     Some (s\<lparr>cpu := take 8 (registers r)\<rparr>)
   }"

definition process_switch :: "kstate \<Rightarrow> addr \<Rightarrow> addr \<Rightarrow> kstate option" where
  "process_switch s from to =
     (if to = 0 then Some s
      else do {
        s1 \<leftarrow> (if from \<noteq> 0 then do {
                 sa \<leftarrow> process_save_context s from;
                 modify from (\<lambda>x. x\<lparr>state := PROC_STATE_READY\<rparr>) sa
               } else Some s);
        s2 \<leftarrow> modify to (\<lambda>x. x\<lparr>state := PROC_STATE_RUNNING\<rparr>) s1;
        s3 \<leftarrow> process_restore_context s2 to;
        Some (process_set_current s3 to)
      })"

section \<open>Queues as lists, invariants and runs\<close>

fun chain :: "(addr \<Rightarrow> Process option) \<Rightarrow> addr \<Rightarrow> addr list \<Rightarrow> addr \<Rightarrow> bool" where
  "chain h p [] q = (p = q)"
| "chain h p (x # xs) q =
     (p = x \<and> x \<noteq> 0 \<and> (case h x of None \<Rightarrow> False | Some r \<Rightarrow> chain h (nextp r) xs q))"

fun prev_ok :: "(addr \<Rightarrow> Process option) \<Rightarrow> addr \<Rightarrow> addr list \<Rightarrow> bool" where
  "prev_ok h pv [] = True"
| "prev_ok h pv (x # xs) =
     ((case h x of None \<Rightarrow> False | Some r \<Rightarrow> prevp r = pv) \<and> prev_ok h x xs)"

fun walk :: "(addr \<Rightarrow> Process option) \<Rightarrow> nat \<Rightarrow> addr \<Rightarrow> addr list option" where
  "walk h 0 p = (if p = 0 then Some [] else None)"
| "walk h (Suc n) p =
     (if p = 0 then Some []
      else (case h p of None \<Rightarrow> None | Some r \<Rightarrow> map_option ((#) p) (walk h n (nextp r))))"

definition unlink :: "Process \<Rightarrow> Process" where
  "unlink r = r\<lparr>nextp := 0, prevp := 0\<rparr>"

definition queues_at :: "kstate \<Rightarrow> (QueueRef \<Rightarrow> addr list) \<Rightarrow> bool" where
  "queues_at s L = (\<forall>q. chain (store s) (get_queue q s) (L q) 0 \<and> prev_ok (store s) 0 (L q))"

definition same_rest :: "kstate \<Rightarrow> kstate \<Rightarrow> bool" where
  "same_rest s s' = (process_table s' = process_table s \<and> process_count s' = process_count s
     \<and> next_pid s' = next_pid s \<and> lastp s' = lastp s \<and> current_process s' = current_process s
     \<and> cpu s' = cpu s \<and> ram s' = ram s \<and> freed s' = freed s)"

definition requeue :: "addr \<Rightarrow> ProcessState \<Rightarrow> (QueueRef \<Rightarrow> addr list) \<Rightarrow> QueueRef \<Rightarrow> addr list" where
  "requeue proc new L q = (if queue_ref new = Some q then [proc] else []) @ remove1 proc (L q)"

definition all_queues :: "QueueRef list" where
  "all_queues = [Q_READY, Q_BLOCKED, Q_ZOMBIE]"

definition queue_list :: "kstate \<Rightarrow> QueueRef \<Rightarrow> addr list option" where
  "queue_list s q = walk (store s) (length (process_table s)) (get_queue q s)"

definition in_queue :: "kstate \<Rightarrow> QueueRef \<Rightarrow> addr \<Rightarrow> bool" where
  "in_queue s q p = (case queue_list s q of None \<Rightarrow> False | Some xs \<Rightarrow> p \<in> set xs)"

definition live_entries :: "kstate \<Rightarrow> addr list" where
  "live_entries s = filter (\<lambda>p. p \<noteq> 0) (process_table s)"

definition queues_linked :: "kstate \<Rightarrow> bool" where
  "queues_linked s =
     (\<forall>q \<in> set all_queues.
        case queue_list s q of
          None \<Rightarrow> False
        | Some xs \<Rightarrow> prev_ok (store s) 0 xs \<and> set xs \<subseteq> set (process_table s))"

definition queues_consistent :: "kstate \<Rightarrow> bool" where
  "queues_consistent s =
     (\<forall>p \<in> set (live_entries s).
        case store s p of
          None \<Rightarrow> False
        | Some r \<Rightarrow> \<forall>q \<in> set all_queues. in_queue s q p = (queue_ref (state r) = Some q))"

definition records_ok :: "kstate \<Rightarrow> bool" where
  "records_ok s =
     (\<forall>p \<in> set (live_entries s).
        case store s p of
          None \<Rightarrow> False
        | Some r \<Rightarrow>
            (queue_ref (state r) = None \<longrightarrow> nextp r = 0 \<and> prevp r = 0)
            \<and> stack_base r \<noteq> 0 \<and> heap_base r \<noteq> 0
            \<and> store s (stack_base r) = None \<and> store s (heap_base r) = None)"

definition table_ok :: "kstate \<Rightarrow> bool" where
  "table_ok s = (distinct (live_entries s) \<and> unat (process_count s) = length (live_entries s)
     \<and> length (process_table s) < 2 ^ 32)"

definition kinv :: "kstate \<Rightarrow> bool" where
  "kinv s = (queues_linked s \<and> queues_consistent s \<and> records_ok s \<and> table_ok s)"

definition kinv_with :: "kstate \<Rightarrow> (QueueRef \<Rightarrow> addr list) \<Rightarrow> bool" where
  "kinv_with s L =
     (queues_at s L \<and> (\<forall>q. set (L q) \<subseteq> set (process_table s))
      \<and> (\<forall>p \<in> set (live_entries s). \<exists>r. store s p = Some r
            \<and> (\<forall>q. p \<in> set (L q) \<longleftrightarrow> queue_ref (state r) = Some q)
            \<and> (queue_ref (state r) = None \<longrightarrow> nextp r = 0 \<and> prevp r = 0)
            \<and> stack_base r \<noteq> 0 \<and> heap_base r \<noteq> 0
            \<and> store s (stack_base r) = None \<and> store s (heap_base r) = None)
      \<and> distinct (live_entries s) \<and> unat (process_count s) = length (live_entries s)
      \<and> length (process_table s) < 2 ^ 32)"

definition new_Process :: "kconsts \<Rightarrow> u32 \<Rightarrow> string \<Rightarrow> u32 \<Rightarrow> u32 \<Rightarrow> addr \<Rightarrow> addr \<Rightarrow> Process" where
  "new_Process K n nm prio entry as ah =
     \<lparr> pid = n, name = take (NAME_SIZE K - 1) nm, state = PROC_STATE_NEW, priority = prio,
       entry_point = entry, stack_base = as, stack_size = 16 * KB K, heap_base = ah,
       heap_size = 64 * KB K,
       registers = fold (\<lambda>i regs. regs[i := 0]) [2..<16]
                     ((replicate 16 0)[0 := entry, 1 := as + 16 * KB K - 4 - 4]),
       nextp = 0, prevp = 0 \<rparr>"

definition create_state :: "kconsts \<Rightarrow> kstate \<Rightarrow> string \<Rightarrow> u32 \<Rightarrow> u32 \<Rightarrow> addr \<Rightarrow> addr \<Rightarrow> addr \<Rightarrow> kstate" where
  "create_state K s nm prio entry ap as ah =
     s\<lparr>next_pid := next_pid s + 1,
       ram := (ram s)(as + 16 * KB K - 4 := exit_handler_addr K, as + 16 * KB K - 4 - 4 := 0x202),
       store := (store s)(ap \<mapsto> new_Process K (next_pid s) nm prio entry as ah),
       process_table := table_insert (process_table s) ap,
       process_count := process_count s + 1\<rparr>"

definition alloc_ok :: "kstate \<Rightarrow> addr \<times> addr \<times> addr \<Rightarrow> bool" where
  "alloc_ok s allocs =
     (case allocs of (a_proc, a_stack, a_heap) \<Rightarrow>
        a_proc \<noteq> 0 \<longrightarrow>
          store s a_proc = None
          \<and> (\<forall>p \<in> set (live_entries s).
                case store s p of
                  None \<Rightarrow> True
                | Some r \<Rightarrow> stack_base r \<noteq> a_proc \<and> heap_base r \<noteq> a_proc)
          \<and> (a_stack \<noteq> 0 \<longrightarrow> store s a_stack = None \<and> a_stack \<noteq> a_proc
                \<and> (a_heap \<noteq> 0 \<longrightarrow> store s a_heap = None \<and> a_heap \<noteq> a_proc)))"

definition zombie_frees :: "(addr \<Rightarrow> Process option) \<Rightarrow> addr list \<Rightarrow> addr list" where
  "zombie_frees h zs =
     concat (map (\<lambda>z. case h z of None \<Rightarrow> [] | Some r \<Rightarrow> [stack_base r, heap_base r, z]) zs)"

fun select_n :: "kstate \<Rightarrow> nat \<Rightarrow> (addr list \<times> kstate) option" where
  "select_n s 0 = Some ([], s)"
| "select_n s (Suc n) = do {
     (p, s1) \<leftarrow> scheduler_select_next s;
     (ps, s2) \<leftarrow> select_n s1 n;
     Some (p # ps, s2)
   }"

definition cycle_of :: "addr list \<Rightarrow> nat \<Rightarrow> addr list" where
  "cycle_of ys n = map (\<lambda>i. ys ! (i mod length ys)) [0..<n]"

section \<open>Lemmas\<close>

lemma chain_append: "chain h p (xs @ ys) q = (\<exists>m. chain h p xs m \<and> chain h m ys q)"
  by (induction xs arbitrary: p) (auto split: option.splits)

lemma chain_frame:
  "(\<And>x. x \<in> set xs \<Longrightarrow> map_option nextp (h' x) = map_option nextp (h x)) \<Longrightarrow>
   chain h' p xs q = chain h p xs q"
proof (induction xs arbitrary: p)
  case Nil
  then show ?case by simp
next
  case (Cons x xs)
  have "map_option nextp (h' x) = map_option nextp (h x)" using Cons.prems by simp
  moreover have "\<And>p. chain h' p xs q = chain h p xs q" using Cons by simp
  ultimately show ?case by (cases "h x"; cases "h' x") auto
qed

lemma prev_ok_frame:
  "(\<And>x. x \<in> set xs \<Longrightarrow> map_option prevp (h' x) = map_option prevp (h x)) \<Longrightarrow>
   prev_ok h' pv xs = prev_ok h pv xs"
proof (induction xs arbitrary: pv)
  case Nil
  then show ?case by simp
next
  case (Cons x xs)
  have "map_option prevp (h' x) = map_option prevp (h x)" using Cons.prems by simp
  moreover have "\<And>pv. prev_ok h' pv xs = prev_ok h pv xs" using Cons by simp
  ultimately show ?case by (cases "h x"; cases "h' x") auto
qed

lemma prev_ok_append:
  "prev_ok h pv (xs @ ys) = (prev_ok h pv xs \<and> prev_ok h (if xs = [] then pv else last xs) ys)"
  by (induction xs arbitrary: pv) auto

lemma chain_live: "chain h p xs q \<Longrightarrow> x \<in> set xs \<Longrightarrow> x \<noteq> 0 \<and> h x \<noteq> None"
  by (induction xs arbitrary: p) (auto split: option.splits)

lemma chain_unique: "chain h p xs 0 \<Longrightarrow> chain h p ys 0 \<Longrightarrow> xs = ys"
proof (induction xs arbitrary: p ys)
  case Nil
  then show ?case by (cases ys) auto
next
  case (Cons x xs)
  then show ?case by (cases ys) (auto split: option.splits)
qed

lemma chain_not_in_tail: "chain h p (x # xs) 0 \<Longrightarrow> x \<notin> set xs"
proof
  assume c: "chain h p (x # xs) 0" and m: "x \<in> set xs"
  then obtain ys zs where xs: "xs = ys @ x # zs" by (auto simp: in_set_conv_decomp)
  from c have "chain h x (x # ys @ x # zs) 0" by (simp add: xs)
  then have "chain h x ((x # ys) @ (x # zs)) 0" by simp
  then obtain m where "chain h x (x # ys) m" "chain h m (x # zs) 0"
    unfolding chain_append by blast
  then have "chain h x (x # zs) 0" by auto
  with c have "x # xs = x # zs" using chain_unique by (metis chain.simps(2))
  then show False by (simp add: xs)
qed

lemma chain_distinct: "chain h p xs 0 \<Longrightarrow> distinct xs"
proof (induction xs arbitrary: p)
  case Nil
  then show ?case by simp
next
  case (Cons x xs)
  from Cons.prems have "x \<notin> set xs" by (rule chain_not_in_tail)
  moreover from Cons have "distinct xs" by (auto split: option.splits)
  ultimately show ?case by simp
qed

lemma walk_chain: "walk h n p = Some xs \<longleftrightarrow> chain h p xs 0 \<and> length xs \<le> n"
proof (induction n arbitrary: p xs)
  case 0
  then show ?case by (cases xs) auto
next
  case (Suc n)
  show ?case
  proof (cases xs)
    case Nil
    then show ?thesis by (auto split: option.splits)
  next
    case (Cons y ys)
    then show ?thesis using Suc by (auto split: option.splits)
  qed
qed

lemma chain_Cons_iff:
  "chain h p (x # xs) q \<longleftrightarrow> p = x \<and> x \<noteq> 0 \<and> (\<exists>r. h x = Some r \<and> chain h (nextp r) xs q)"
  by (auto split: option.splits)

lemma prev_ok_Cons_iff:
  "prev_ok h pv (x # xs) \<longleftrightarrow> (\<exists>r. h x = Some r \<and> prevp r = pv) \<and> prev_ok h x xs"
  by (auto split: option.splits)

declare chain.simps(2) [simp del] prev_ok.simps(2) [simp del]

declare chain_Cons_iff [simp] prev_ok_Cons_iff [simp]

lemma set_queue_store: "set_queue q v (s\<lparr>store := h\<rparr>) = (set_queue q v s)\<lparr>store := h\<rparr>"
  by (cases q) simp_all

lemma set_queue_same: "set_queue q (get_queue q s) s = s"
  by (cases q) simp_all

lemma get_set_queue: "get_queue q' (set_queue q v s) = (if q' = q then v else get_queue q' s)"
  by (cases q; cases q') simp_all

lemma store_set_queue [simp]: "store (set_queue q v s) = store s"
  by (cases q) simp_all

lemma get_queue_store [simp]: "get_queue q (s\<lparr>store := h\<rparr>) = get_queue q s"
  by (cases q) simp_all

lemma unlink_simps [simp]:
  "unlink (r\<lparr>nextp := a\<rparr>) = unlink r" "unlink (r\<lparr>prevp := a\<rparr>) = unlink r"
  by (simp_all add: unlink_def)

lemma remove_head:
  assumes q: "queue_ref st = Some q"
    and ch: "chain (store s) (get_queue q s) (proc # post) 0"
    and pv: "prev_ok (store s) 0 (proc # post)"
  shows "\<exists>h' v. process_remove_from_queue s proc st = Some (set_queue q v (s\<lparr>store := h'\<rparr>))
     \<and> chain h' v post 0 \<and> prev_ok h' 0 post
     \<and> (\<forall>x. x \<notin> set (proc # post) \<longrightarrow> h' x = store s x)
     \<and> (\<forall>x. map_option unlink (h' x) = map_option unlink (store s x))
     \<and> (\<exists>r. h' proc = Some r \<and> nextp r = 0 \<and> prevp r = 0)"
proof -
  from ch obtain r where hd: "get_queue q s = proc" and nz: "proc \<noteq> 0"
    and r: "store s proc = Some r" and ch': "chain (store s) (nextp r) post 0"
    by auto
  have notin: "proc \<notin> set post" using ch by (rule chain_not_in_tail)
  show ?thesis
  proof (cases post)
    case Nil
    with ch' have n0: "nextp r = 0" by simp
    let ?h = "(store s)(proc \<mapsto> r\<lparr>prevp := 0, nextp := 0\<rparr>)"
    have "process_remove_from_queue s proc st = Some (set_queue q 0 (s\<lparr>store := ?h\<rparr>))"
      using q hd nz r n0
      by (simp add: process_remove_from_queue_def deref_def modify_def get_set_queue set_queue_store)
    then show ?thesis using Nil r by (intro exI[of _ ?h] exI[of _ 0]) (auto simp: unlink_def)
  next
    case (Cons n post')
    with ch' obtain rn where nn: "nextp r = n" and nnz: "n \<noteq> 0" and rn: "store s n = Some rn"
      and ch'': "chain (store s) (nextp rn) post' 0"
      by auto
    have np: "n \<noteq> proc" using notin Cons by auto
    have nnotin: "n \<notin> set post'" using ch' Cons chain_not_in_tail by blast
    let ?h = "(store s)(n \<mapsto> rn\<lparr>prevp := 0\<rparr>, proc \<mapsto> r\<lparr>prevp := 0, nextp := 0\<rparr>)"
    have res: "process_remove_from_queue s proc st = Some (set_queue q n (s\<lparr>store := ?h\<rparr>))"
      using q hd nz r nn nnz rn np
      by (simp add: process_remove_from_queue_def deref_def modify_def get_set_queue set_queue_store)
    have c1: "chain ?h n post 0 = chain (store s) n post 0"
      using notin Cons rn by (intro chain_frame) auto
    have c2: "chain (store s) n post 0" using ch' nn by simp
    have p1: "prev_ok ?h n post' = prev_ok (store s) n post'"
      using notin nnotin Cons by (intro prev_ok_frame) auto
    have p2: "prev_ok (store s) n post'" using pv Cons by simp
    have p3: "prev_ok ?h 0 post" using p1 p2 Cons np by simp
    show ?thesis using res c1 c2 p3 r rn np Cons
      by (intro exI[of _ ?h] exI[of _ n]) (auto simp: unlink_def)
  qed
qed

lemma remove_mid:
  assumes q: "queue_ref st = Some q"
    and ch: "chain (store s) (get_queue q s) (pre @ b # proc # post) 0"
    and pv: "prev_ok (store s) 0 (pre @ b # proc # post)"
  shows "\<exists>h'. process_remove_from_queue s proc st = Some (s\<lparr>store := h'\<rparr>)
     \<and> chain h' (get_queue q s) (pre @ b # post) 0 \<and> prev_ok h' 0 (pre @ b # post)
     \<and> (\<forall>x. x \<notin> set (pre @ b # proc # post) \<longrightarrow> h' x = store s x)
     \<and> (\<forall>x. map_option unlink (h' x) = map_option unlink (store s x))
     \<and> (\<exists>r. h' proc = Some r \<and> nextp r = 0 \<and> prevp r = 0)"
proof -
  let ?h = "store s"
  let ?lp = "if pre = [] then 0 else last pre"
  have dist: "distinct (pre @ b # proc # post)" using ch by (rule chain_distinct)
  from ch obtain rb r where c_pre: "chain ?h (get_queue q s) pre b"
    and bz: "b \<noteq> 0" and rb: "?h b = Some rb" and nb: "nextp rb = proc"
    and pz: "proc \<noteq> 0" and r: "?h proc = Some r" and c_post: "chain ?h (nextp r) post 0"
    by (auto simp: chain_append)
  from pv rb r have p_pre: "prev_ok ?h 0 pre" and pb: "prevp rb = ?lp" and pp: "prevp r = b"
    and p_post: "prev_ok ?h proc post"
    by (auto simp: prev_ok_append)
  have hd_ne: "get_queue q s \<noteq> proc"
  proof (cases pre)
    case Nil
    with c_pre dist show ?thesis by auto
  next
    case (Cons a as)
    with c_pre dist show ?thesis by auto
  qed
  have bp: "b \<noteq> proc" using dist by auto
  show ?thesis
  proof (cases post)
    case Nil
    with c_post have n0: "nextp r = 0" by simp
    let ?h' = "?h(b \<mapsto> rb\<lparr>nextp := 0\<rparr>, proc \<mapsto> r\<lparr>prevp := 0, nextp := 0\<rparr>)"
    have res: "process_remove_from_queue s proc st = Some (s\<lparr>store := ?h'\<rparr>)"
      using q hd_ne pz r n0 pp bz rb bp
      by (simp add: process_remove_from_queue_def deref_def modify_def)
    have c1: "chain ?h' (get_queue q s) pre b = chain ?h (get_queue q s) pre b"
      using dist by (intro chain_frame) auto
    have p1: "prev_ok ?h' 0 pre = prev_ok ?h 0 pre"
      using dist by (intro prev_ok_frame) auto
    have c2: "chain ?h' (get_queue q s) (pre @ [b]) 0"
      using c1 c_pre bz bp by (simp add: chain_append)
    have p2: "prev_ok ?h' 0 (pre @ [b])"
      using p1 p_pre pb bp by (simp add: prev_ok_append)
    show ?thesis using res c2 p2 Nil r rb bp
      by (intro exI[of _ ?h']) (auto simp: unlink_def)
  next
    case (Cons n post')
    with c_post obtain rn where nn: "nextp r = n" and nnz: "n \<noteq> 0" and rn: "?h n = Some rn"
      and c_post': "chain ?h (nextp rn) post' 0"
      by auto
    have ne: "n \<noteq> proc" "n \<noteq> b" using dist Cons by auto
    let ?h' = "?h(b \<mapsto> rb\<lparr>nextp := n\<rparr>, n \<mapsto> rn\<lparr>prevp := b\<rparr>, proc \<mapsto> r\<lparr>prevp := 0, nextp := 0\<rparr>)"
    have res: "process_remove_from_queue s proc st = Some (s\<lparr>store := ?h'\<rparr>)"
      using q hd_ne pz r nn nnz rn pp bz rb bp ne
      by (simp add: process_remove_from_queue_def deref_def modify_def)
    have c1: "chain ?h' (get_queue q s) pre b = chain ?h (get_queue q s) pre b"
      using dist Cons by (intro chain_frame) auto
    have p1: "prev_ok ?h' 0 pre = prev_ok ?h 0 pre"
      using dist Cons by (intro prev_ok_frame) auto
    have c3: "chain ?h' n post 0 = chain ?h n post 0"
      using dist Cons rn by (intro chain_frame) auto
    have c4: "chain ?h n post 0" using c_post nn by simp
    have p3: "prev_ok ?h' n post' = prev_ok ?h n post'"
      using dist Cons by (intro prev_ok_frame) auto
    have p4: "prev_ok ?h n post'" using p_post Cons by simp
    have c2: "chain ?h' (get_queue q s) (pre @ b # post) 0"
      using c1 c_pre c3 c4 bz bp ne by (simp add: chain_append)
    have p2: "prev_ok ?h' 0 (pre @ b # post)"
      using p1 p_pre pb bp ne p3 p4 Cons by (simp add: prev_ok_append)
    show ?thesis using res c2 p2 Cons r rb rn bp ne
      by (intro exI[of _ ?h']) (auto simp: unlink_def)
  qed
qed

lemma remove_ok:
  assumes q: "queue_ref st = Some q"
    and ch: "chain (store s) (get_queue q s) xs 0"
    and pv: "prev_ok (store s) 0 xs"
    and mem: "proc \<in> set xs"
  shows "\<exists>h' v. process_remove_from_queue s proc st = Some (set_queue q v (s\<lparr>store := h'\<rparr>))
     \<and> chain h' v (remove1 proc xs) 0 \<and> prev_ok h' 0 (remove1 proc xs)
     \<and> (\<forall>x. x \<notin> set xs \<longrightarrow> h' x = store s x)
     \<and> (\<forall>x. map_option unlink (h' x) = map_option unlink (store s x))
     \<and> (\<exists>r. h' proc = Some r \<and> nextp r = 0 \<and> prevp r = 0)"
proof -
  from mem obtain ys post where xs: "xs = ys @ proc # post" and ny: "proc \<notin> set ys"
    by (auto dest: split_list_first)
  have rm: "remove1 proc xs = ys @ post" using xs ny by (simp add: remove1_append)
  show ?thesis
  proof (cases ys rule: rev_cases)
    case Nil
    with remove_head[OF q, of s proc post] ch pv xs rm show ?thesis by simp
  next
    case (snoc pre b)
    from remove_mid[OF q, of s pre b proc post] ch pv xs snoc
    obtain h' where h': "process_remove_from_queue s proc st = Some (s\<lparr>store := h'\<rparr>)"
      "chain h' (get_queue q s) (pre @ b # post) 0" "prev_ok h' 0 (pre @ b # post)"
      "\<forall>x. x \<notin> set (pre @ b # proc # post) \<longrightarrow> h' x = store s x"
      "\<forall>x. map_option unlink (h' x) = map_option unlink (store s x)"
      "\<exists>r. h' proc = Some r \<and> nextp r = 0 \<and> prevp r = 0"
      by auto
    have "set_queue q (get_queue q s) (s\<lparr>store := h'\<rparr>) = s\<lparr>store := h'\<rparr>"
      using set_queue_same[of q "s\<lparr>store := h'\<rparr>"] by simp
    with h' rm xs snoc show ?thesis
      by (intro exI[of _ h'] exI[of _ "get_queue q s"]) simp
  qed
qed

lemma add_ok:
  assumes q: "queue_ref st = Some q"
    and ch: "chain (store s) (get_queue q s) xs 0"
    and pv: "prev_ok (store s) 0 xs"
    and nmem: "proc \<notin> set xs"
    and nz: "proc \<noteq> 0"
    and r: "store s proc = Some r"
  shows "\<exists>h'. process_add_to_queue s proc st = Some (set_queue q proc (s\<lparr>store := h'\<rparr>))
     \<and> chain h' proc (proc # xs) 0 \<and> prev_ok h' 0 (proc # xs)
     \<and> (\<forall>x. x \<notin> set (proc # xs) \<longrightarrow> h' x = store s x)
     \<and> (\<forall>x. map_option unlink (h' x) = map_option unlink (store s x))"
proof (cases xs)
  case Nil
  with ch have hd: "get_queue q s = 0" by simp
  let ?h = "(store s)(proc \<mapsto> r\<lparr>nextp := 0, prevp := 0\<rparr>)"
  have "process_add_to_queue s proc st = Some (set_queue q proc (s\<lparr>store := ?h\<rparr>))"
    using q hd nz r by (simp add: process_add_to_queue_def deref_def modify_def set_queue_store)
  then show ?thesis using Nil nz r by (intro exI[of _ ?h]) (auto simp: unlink_def)
next
  case (Cons n xs')
  with ch obtain rn where hd: "get_queue q s = n" and nnz: "n \<noteq> 0" and rn: "store s n = Some rn"
    by auto
  have np: "n \<noteq> proc" using nmem Cons by auto
  have nn: "n \<notin> set xs'" using ch Cons chain_not_in_tail by blast
  let ?h = "(store s)(proc \<mapsto> r\<lparr>nextp := n, prevp := 0\<rparr>, n \<mapsto> rn\<lparr>prevp := proc\<rparr>)"
  have res: "process_add_to_queue s proc st = Some (set_queue q proc (s\<lparr>store := ?h\<rparr>))"
    using q hd nz r nnz rn np
    by (simp add: process_add_to_queue_def deref_def modify_def set_queue_store)
  have c1: "chain ?h n xs 0 = chain (store s) n xs 0"
    using nmem rn Cons by (intro chain_frame) auto
  have p1: "prev_ok ?h n xs' = prev_ok (store s) n xs'"
    using nmem nn Cons by (intro prev_ok_frame) auto
  have c2: "chain ?h proc (proc # xs) 0" using c1 ch hd nz np by simp
  have p2: "prev_ok ?h 0 (proc # xs)" using p1 pv Cons np by simp
  show ?thesis using res c2 p2 r rn np Cons
    by (intro exI[of _ ?h]) (auto simp: unlink_def)
qed

lemma same_rest_set_queue: "same_rest s (set_queue q v (s\<lparr>store := h\<rparr>))"
  by (cases q) (simp_all add: same_rest_def)

lemma same_rest_refl: "same_rest s s"
  by (simp add: same_rest_def)

lemma same_rest_trans: "same_rest s s' \<Longrightarrow> same_rest s' s'' \<Longrightarrow> same_rest s s''"
  by (simp add: same_rest_def)

lemma chain_frame_eq:
  "chain h p xs q \<Longrightarrow> (\<And>x. x \<in> set xs \<Longrightarrow> h' x = h x) \<Longrightarrow> chain h' p xs q"
  using chain_frame[of xs h' h p q] by simp

lemma prev_ok_frame_eq:
  "prev_ok h pv xs \<Longrightarrow> (\<And>x. x \<in> set xs \<Longrightarrow> h' x = h x) \<Longrightarrow> prev_ok h' pv xs"
  using prev_ok_frame[of xs h' h pv] by simp

lemma remove_queues:
  assumes qa: "queues_at s L"
    and disj: "\<forall>q q'. q \<noteq> q' \<longrightarrow> set (L q) \<inter> set (L q') = {}"
    and mem: "\<forall>q. proc \<in> set (L q) \<longleftrightarrow> queue_ref st = Some q"
  shows "\<exists>s'. process_remove_from_queue s proc st = Some s'
     \<and> queues_at s' (\<lambda>q. remove1 proc (L q)) \<and> same_rest s s'
     \<and> (\<forall>x. map_option unlink (store s' x) = map_option unlink (store s x))
     \<and> (queue_ref st \<noteq> None \<longrightarrow> (\<exists>r'. store s' proc = Some r' \<and> nextp r' = 0 \<and> prevp r' = 0))
     \<and> (queue_ref st = None \<longrightarrow> s' = s)
     \<and> (\<forall>x. (\<forall>q. x \<notin> set (L q)) \<longrightarrow> store s' x = store s x)"
proof (cases "queue_ref st")
  case None
  with mem have "\<And>q. remove1 proc (L q) = L q" by (simp add: remove1_idem)
  with None qa show ?thesis
    by (simp add: process_remove_from_queue_def same_rest_refl)
next
  case (Some qo)
  have ch: "chain (store s) (get_queue qo s) (L qo) 0" and pv: "prev_ok (store s) 0 (L qo)"
    using qa by (simp_all add: queues_at_def)
  have m: "proc \<in> set (L qo)" using mem Some by simp
  from remove_ok[OF Some ch pv m] obtain h' v where
    res: "process_remove_from_queue s proc st = Some (set_queue qo v (s\<lparr>store := h'\<rparr>))"
    and c: "chain h' v (remove1 proc (L qo)) 0" and p: "prev_ok h' 0 (remove1 proc (L qo))"
    and fr: "\<forall>x. x \<notin> set (L qo) \<longrightarrow> h' x = store s x"
    and ul: "\<forall>x. map_option unlink (h' x) = map_option unlink (store s x)"
    and cl: "\<exists>r. h' proc = Some r \<and> nextp r = 0 \<and> prevp r = 0"
    by blast
  let ?s' = "set_queue qo v (s\<lparr>store := h'\<rparr>)"
  have "queues_at ?s' (\<lambda>q. remove1 proc (L q))"
    unfolding queues_at_def
  proof (intro allI)
    fix q
    show "chain (store ?s') (get_queue q ?s') (remove1 proc (L q)) 0
        \<and> prev_ok (store ?s') 0 (remove1 proc (L q))"
    proof (cases "q = qo")
      case True
      with c p show ?thesis by (simp add: get_set_queue)
    next
      case False
      then have nm: "proc \<notin> set (L q)" using mem Some by simp
      have d: "\<And>x. x \<in> set (L q) \<Longrightarrow> h' x = store s x"
        using fr disj False by blast
      have "chain (store s) (get_queue q s) (L q) 0" "prev_ok (store s) 0 (L q)"
        using qa by (simp_all add: queues_at_def)
      then have "chain h' (get_queue q s) (L q) 0" "prev_ok h' 0 (L q)"
        using d by (auto intro: chain_frame_eq prev_ok_frame_eq)
      then show ?thesis using False nm by (simp add: get_set_queue remove1_idem)
    qed
  qed
  then show ?thesis using res ul cl Some fr
    by (intro exI[of _ ?s']) (simp add: same_rest_set_queue)
qed

lemma add_queues:
  assumes qa: "queues_at s L"
    and disj: "\<forall>q q'. q \<noteq> q' \<longrightarrow> set (L q) \<inter> set (L q') = {}"
    and nmem: "\<forall>q. proc \<notin> set (L q)"
    and nz: "proc \<noteq> 0"
    and r: "store s proc = Some r"
  shows "\<exists>s'. process_add_to_queue s proc st = Some s'
     \<and> queues_at s' (\<lambda>q. (if queue_ref st = Some q then [proc] else []) @ L q) \<and> same_rest s s'
     \<and> (\<forall>x. map_option unlink (store s' x) = map_option unlink (store s x))
     \<and> (queue_ref st = None \<longrightarrow> s' = s)
     \<and> (\<forall>x. x \<noteq> proc \<and> (\<forall>q. x \<notin> set (L q)) \<longrightarrow> store s' x = store s x)"
proof (cases "queue_ref st")
  case None
  with qa show ?thesis
    by (simp add: process_add_to_queue_def same_rest_refl)
next
  case (Some qn)
  have ch: "chain (store s) (get_queue qn s) (L qn) 0" and pv: "prev_ok (store s) 0 (L qn)"
    using qa by (simp_all add: queues_at_def)
  have m: "proc \<notin> set (L qn)" using nmem by simp
  from add_ok[OF Some ch pv m nz r] obtain h' where
    res: "process_add_to_queue s proc st = Some (set_queue qn proc (s\<lparr>store := h'\<rparr>))"
    and c: "chain h' proc (proc # L qn) 0" and p: "prev_ok h' 0 (proc # L qn)"
    and fr: "\<forall>x. x \<notin> set (proc # L qn) \<longrightarrow> h' x = store s x"
    and ul: "\<forall>x. map_option unlink (h' x) = map_option unlink (store s x)"
    by blast
  let ?s' = "set_queue qn proc (s\<lparr>store := h'\<rparr>)"
  have "queues_at ?s' (\<lambda>q. (if queue_ref st = Some q then [proc] else []) @ L q)"
    unfolding queues_at_def
  proof (intro allI)
    fix q
    show "chain (store ?s') (get_queue q ?s') ((if queue_ref st = Some q then [proc] else []) @ L q) 0
        \<and> prev_ok (store ?s') 0 ((if queue_ref st = Some q then [proc] else []) @ L q)"
    proof (cases "q = qn")
      case True
      with c p Some show ?thesis by (simp add: get_set_queue)
    next
      case False
      have d: "\<And>x. x \<in> set (L q) \<Longrightarrow> h' x = store s x"
        using fr disj False nmem by (metis disjoint_iff set_ConsD)
      have "chain (store s) (get_queue q s) (L q) 0" "prev_ok (store s) 0 (L q)"
        using qa by (simp_all add: queues_at_def)
      then have "chain h' (get_queue q s) (L q) 0" "prev_ok h' 0 (L q)"
        using d by (auto intro: chain_frame_eq prev_ok_frame_eq)
      then show ?thesis using False Some by (auto simp add: get_set_queue)
    qed
  qed
  then show ?thesis using res ul Some fr
    by (intro exI[of _ ?s']) (simp add: same_rest_set_queue)
qed

lemma queues_at_frame:
  assumes "queues_at s L"
    and "\<And>q. get_queue q s' = get_queue q s"
    and "\<And>x. map_option nextp (store s' x) = map_option nextp (store s x)"
    and "\<And>x. map_option prevp (store s' x) = map_option prevp (store s x)"
  shows "queues_at s' L"
  using assms unfolding queues_at_def
  by (metis chain_frame prev_ok_frame)

lemma set_state_ok:
  assumes qa: "queues_at s L"
    and disj: "\<forall>q q'. q \<noteq> q' \<longrightarrow> set (L q) \<inter> set (L q') = {}"
    and nz: "proc \<noteq> 0"
    and r: "store s proc = Some r"
    and mem: "\<forall>q. proc \<in> set (L q) \<longleftrightarrow> queue_ref (state r) = Some q"
  shows "\<exists>s'. process_set_state s proc new = Some (ERR_SUCCESS, s')
     \<and> queues_at s' (requeue proc new L) \<and> same_rest s s'
     \<and> (\<forall>x. x \<noteq> proc \<longrightarrow> map_option unlink (store s' x) = map_option unlink (store s x))
     \<and> (\<exists>r'. store s' proc = Some r' \<and> unlink r' = unlink (r\<lparr>state := new\<rparr>)
           \<and> (queue_ref new = None \<longrightarrow>
                (if queue_ref (state r) = None then nextp r' = nextp r \<and> prevp r' = prevp r
                 else nextp r' = 0 \<and> prevp r' = 0)))
     \<and> (\<forall>x. x \<noteq> proc \<and> (\<forall>q. x \<notin> set (L q)) \<longrightarrow> store s' x = store s x)"
proof -
  let ?s1 = "s\<lparr>store := (store s)(proc \<mapsto> r\<lparr>state := new\<rparr>)\<rparr>"
  have m1: "modify proc (\<lambda>x. x\<lparr>state := new\<rparr>) s = Some ?s1"
    using nz r by (simp add: modify_def deref_def)
  have qa1: "queues_at ?s1 L"
    using r by (intro queues_at_frame[OF qa]) auto
  have sr1: "same_rest s ?s1" by (simp add: same_rest_def)
  from remove_queues[OF qa1 disj mem] obtain s2 where
    rm: "process_remove_from_queue ?s1 proc (state r) = Some s2"
    and qa2: "queues_at s2 (\<lambda>q. remove1 proc (L q))" and sr2: "same_rest ?s1 s2"
    and ul2: "\<forall>x. map_option unlink (store s2 x) = map_option unlink (store ?s1 x)"
    and cl2: "queue_ref (state r) \<noteq> None \<longrightarrow> (\<exists>r'. store s2 proc = Some r' \<and> nextp r' = 0 \<and> prevp r' = 0)"
    and id2: "queue_ref (state r) = None \<longrightarrow> s2 = ?s1"
    and fr2: "\<forall>x. (\<forall>q. x \<notin> set (L q)) \<longrightarrow> store s2 x = store ?s1 x"
    by (elim exE conjE) (rule that, assumption+)
  from ul2 have "map_option unlink (store s2 proc) = Some (unlink (r\<lparr>state := new\<rparr>))"
    by simp
  then obtain r2 where r2: "store s2 proc = Some r2" and u2: "unlink r2 = unlink (r\<lparr>state := new\<rparr>)"
    by (cases "store s2 proc") auto
  have dist: "\<And>q. distinct (L q)" using qa chain_distinct by (auto simp: queues_at_def)
  have disj2: "\<forall>q q'. q \<noteq> q' \<longrightarrow> set (remove1 proc (L q)) \<inter> set (remove1 proc (L q')) = {}"
    using disj dist by (auto simp: set_remove1_eq)
  have nmem2: "\<forall>q. proc \<notin> set (remove1 proc (L q))"
    using dist by (simp add: set_remove1_eq)
  from add_queues[OF qa2 disj2 nmem2 nz r2, of new] obtain s3 where
    ad: "process_add_to_queue s2 proc new = Some s3"
    and qa3: "queues_at s3 (\<lambda>q. (if queue_ref new = Some q then [proc] else []) @ remove1 proc (L q))"
    and sr3: "same_rest s2 s3"
    and ul3: "\<forall>x. map_option unlink (store s3 x) = map_option unlink (store s2 x)"
    and id3: "queue_ref new = None \<longrightarrow> s3 = s2"
    and fr3: "\<forall>x. x \<noteq> proc \<and> (\<forall>q. x \<notin> set (remove1 proc (L q))) \<longrightarrow> store s3 x = store s2 x"
    by (elim exE conjE) (rule that, assumption+)
  have res: "process_set_state s proc new = Some (ERR_SUCCESS, s3)"
    using nz r m1 rm ad by (simp add: process_set_state_def deref_def)
  have qa3': "queues_at s3 (requeue proc new L)"
    using qa3 by (simp add: requeue_def[abs_def])
  have sr: "same_rest s s3" using sr1 sr2 sr3 by (blast intro: same_rest_trans)
  have ul: "\<forall>x. x \<noteq> proc \<longrightarrow> map_option unlink (store s3 x) = map_option unlink (store s x)"
    using ul2 ul3 by simp
  from ul3 r2 have "map_option unlink (store s3 proc) = Some (unlink r2)"
    by simp
  then obtain r3 where r3: "store s3 proc = Some r3" and u3: "unlink r3 = unlink r2"
    by (cases "store s3 proc") auto
  have links: "queue_ref new = None \<longrightarrow>
      (if queue_ref (state r) = None then nextp r3 = nextp r \<and> prevp r3 = prevp r
       else nextp r3 = 0 \<and> prevp r3 = 0)"
    using id3 id2 cl2 r3 r2 by auto
  have fr: "\<forall>x. x \<noteq> proc \<and> (\<forall>q. x \<notin> set (L q)) \<longrightarrow> store s3 x = store s x"
  proof (intro allI impI)
    fix x assume x: "x \<noteq> proc \<and> (\<forall>q. x \<notin> set (L q))"
    then have "\<forall>q. x \<notin> set (remove1 proc (L q))" by (meson notin_set_remove1)
    with x fr3 have "store s3 x = store s2 x" by blast
    also have "\<dots> = store ?s1 x" using x fr2 by blast
    finally show "store s3 x = store s x" using x by simp
  qed
  show ?thesis using res qa3' sr ul r3 u3 u2 links fr by auto
qed

lemma all_queues_iff: "(\<forall>q \<in> set all_queues. P q) = (\<forall>q. P q)"
proof
  assume a: "\<forall>q \<in> set all_queues. P q"
  show "\<forall>q. P q"
  proof
    fix q show "P q" using a by (cases q) (simp_all add: all_queues_def)
  qed
qed simp

lemma sublist_length:
  assumes "distinct xs" "set xs \<subseteq> set ys"
  shows "length xs \<le> length ys"
proof -
  have "length xs = card (set xs)" using assms(1) by (simp add: distinct_card)
  also have "\<dots> \<le> card (set ys)" using assms(2) by (simp add: card_mono)
  also have "\<dots> \<le> length ys" by (rule card_length)
  finally show ?thesis .
qed

lemma queue_list_with:
  assumes "queues_at s L" "set (L q) \<subseteq> set (process_table s)"
  shows "queue_list s q = Some (L q)"
proof -
  have c: "chain (store s) (get_queue q s) (L q) 0" using assms(1) by (simp add: queues_at_def)
  then have "distinct (L q)" by (rule chain_distinct)
  then have "length (L q) \<le> length (process_table s)" using assms(2) by (rule sublist_length)
  with c show ?thesis by (simp add: queue_list_def walk_chain)
qed

lemma kinv_withI: "kinv_with s L \<Longrightarrow> kinv s"
proof -
  assume k: "kinv_with s L"
  then have ql: "\<And>q. queue_list s q = Some (L q)"
    by (simp add: kinv_with_def queue_list_with)
  have "queues_linked s" using k ql
    by (simp add: queues_linked_def all_queues_iff kinv_with_def queues_at_def)
  moreover have "queues_consistent s" using k ql
    by (fastforce simp: queues_consistent_def all_queues_iff kinv_with_def in_queue_def)
  moreover have "records_ok s" using k
    by (fastforce simp: records_ok_def kinv_with_def)
  moreover have "table_ok s" using k by (simp add: table_ok_def kinv_with_def)
  ultimately show ?thesis by (simp add: kinv_def)
qed

lemma kinv_withD:
  assumes k: "kinv s"
  shows "kinv_with s (\<lambda>q. the (queue_list s q))"
proof -
  let ?L = "\<lambda>q. the (queue_list s q)"
  have ql: "\<exists>xs. queue_list s q = Some xs \<and> prev_ok (store s) 0 xs
      \<and> set xs \<subseteq> set (process_table s)" for q
  proof -
    from k have "case queue_list s q of None \<Rightarrow> False
      | Some xs \<Rightarrow> prev_ok (store s) 0 xs \<and> set xs \<subseteq> set (process_table s)"
      by (simp add: kinv_def queues_linked_def all_queues_iff)
    then show ?thesis by (cases "queue_list s q") auto
  qed
  have qa: "queues_at s ?L"
    unfolding queues_at_def
  proof
    fix q
    from ql[of q] obtain xs where xs: "queue_list s q = Some xs" "prev_ok (store s) 0 xs" by blast
    then have "chain (store s) (get_queue q s) xs 0" by (simp add: queue_list_def walk_chain)
    with xs show "chain (store s) (get_queue q s) (?L q) 0 \<and> prev_ok (store s) 0 (?L q)" by simp
  qed
  have sub: "\<forall>q. set (?L q) \<subseteq> set (process_table s)"
  proof
    fix q from ql[of q] show "set (?L q) \<subseteq> set (process_table s)" by auto
  qed
  have recs: "\<forall>p \<in> set (live_entries s). \<exists>r. store s p = Some r
            \<and> (\<forall>q. p \<in> set (?L q) \<longleftrightarrow> queue_ref (state r) = Some q)
            \<and> (queue_ref (state r) = None \<longrightarrow> nextp r = 0 \<and> prevp r = 0)
            \<and> stack_base r \<noteq> 0 \<and> heap_base r \<noteq> 0
            \<and> store s (stack_base r) = None \<and> store s (heap_base r) = None"
  proof
    fix p assume p: "p \<in> set (live_entries s)"
    from k p obtain r where r: "store s p = Some r"
      and c: "\<forall>q. in_queue s q p = (queue_ref (state r) = Some q)"
      by (auto simp: kinv_def queues_consistent_def all_queues_iff split: option.splits)
    from k p r have o: "(queue_ref (state r) = None \<longrightarrow> nextp r = 0 \<and> prevp r = 0)
            \<and> stack_base r \<noteq> 0 \<and> heap_base r \<noteq> 0
            \<and> store s (stack_base r) = None \<and> store s (heap_base r) = None"
      by (auto simp: kinv_def records_ok_def split: option.splits)
    have "in_queue s q p = (p \<in> set (?L q))" for q
      using ql[of q] by (auto simp: in_queue_def)
    with r c o show "\<exists>r. store s p = Some r
            \<and> (\<forall>q. p \<in> set (?L q) \<longleftrightarrow> queue_ref (state r) = Some q)
            \<and> (queue_ref (state r) = None \<longrightarrow> nextp r = 0 \<and> prevp r = 0)
            \<and> stack_base r \<noteq> 0 \<and> heap_base r \<noteq> 0
            \<and> store s (stack_base r) = None \<and> store s (heap_base r) = None"
      by simp
  qed
  from k have "distinct (live_entries s)" "unat (process_count s) = length (live_entries s)"
    "length (process_table s) < 2 ^ 32"
    by (simp_all add: kinv_def table_ok_def)
  with qa sub recs show ?thesis unfolding kinv_with_def by blast
qed

lemma kinv_with_disjoint:
  assumes k: "kinv_with s L"
  shows "\<forall>q q'. q \<noteq> q' \<longrightarrow> set (L q) \<inter> set (L q') = {}"
proof (intro allI impI)
  fix q q' :: QueueRef assume ne: "q \<noteq> q'"
  show "set (L q) \<inter> set (L q') = {}"
  proof (rule ccontr)
    assume "set (L q) \<inter> set (L q') \<noteq> {}"
    then obtain p where p: "p \<in> set (L q)" "p \<in> set (L q')" by blast
    have "chain (store s) (get_queue q s) (L q) 0" using k by (simp add: kinv_with_def queues_at_def)
    with p have "p \<noteq> 0" using chain_live by blast
    moreover have "p \<in> set (process_table s)" using k p by (auto simp: kinv_with_def)
    ultimately have "p \<in> set (live_entries s)" by (simp add: live_entries_def)
    with k p ne show False by (fastforce simp: kinv_with_def)
  qed
qed

lemma unlink_eq_fields:
  assumes "unlink a = unlink b"
  shows "state a = state b" "pid a = pid b" "name a = name b"
    "stack_base a = stack_base b" "heap_base a = heap_base b"
proof -
  have "state (unlink a) = state (unlink b)" "pid (unlink a) = pid (unlink b)"
    "name (unlink a) = name (unlink b)" "stack_base (unlink a) = stack_base (unlink b)"
    "heap_base (unlink a) = heap_base (unlink b)"
    using assms by simp_all
  then show "state a = state b" "pid a = pid b" "name a = name b"
    "stack_base a = stack_base b" "heap_base a = heap_base b"
    by (simp_all add: unlink_def)
qed

lemma same_rest_live: "same_rest s s' \<Longrightarrow> live_entries s' = live_entries s"
  by (simp add: same_rest_def live_entries_def)

lemma unlink_same_dom:
  "map_option unlink (h' x) = map_option unlink (h x) \<Longrightarrow> (h' x = None) = (h x = None)"
  by (cases "h x"; cases "h' x") auto

lemma set_state_kinv:
  assumes k: "kinv_with s L" and live: "proc \<in> set (live_entries s)"
  shows "\<exists>s'. process_set_state s proc new = Some (ERR_SUCCESS, s')
     \<and> kinv_with s' (requeue proc new L) \<and> same_rest s s'
     \<and> (\<forall>x. x \<noteq> proc \<longrightarrow> map_option unlink (store s' x) = map_option unlink (store s x))
     \<and> (\<exists>r r'. store s proc = Some r \<and> store s' proc = Some r'
           \<and> unlink r' = unlink (r\<lparr>state := new\<rparr>))"
proof -
  have qa: "queues_at s L" using k by (simp add: kinv_with_def)
  have disj: "\<forall>q q'. q \<noteq> q' \<longrightarrow> set (L q) \<inter> set (L q') = {}" using k by (rule kinv_with_disjoint)
  have nz: "proc \<noteq> 0" using live by (simp add: live_entries_def)
  have recs: "\<And>p. p \<in> set (live_entries s) \<Longrightarrow> \<exists>r. store s p = Some r
            \<and> (\<forall>q. p \<in> set (L q) \<longleftrightarrow> queue_ref (state r) = Some q)
            \<and> (queue_ref (state r) = None \<longrightarrow> nextp r = 0 \<and> prevp r = 0)
            \<and> stack_base r \<noteq> 0 \<and> heap_base r \<noteq> 0
            \<and> store s (stack_base r) = None \<and> store s (heap_base r) = None"
    using k unfolding kinv_with_def by blast
  from recs[OF live] obtain r where r: "store s proc = Some r"
    and mem: "\<forall>q. proc \<in> set (L q) \<longleftrightarrow> queue_ref (state r) = Some q"
    and lk: "queue_ref (state r) = None \<longrightarrow> nextp r = 0 \<and> prevp r = 0"
    and rg: "stack_base r \<noteq> 0" "heap_base r \<noteq> 0"
       "store s (stack_base r) = None" "store s (heap_base r) = None"
    by (elim exE conjE) (rule that, assumption+)
  from set_state_ok[OF qa disj nz r mem, of new] obtain s' r' where
    res: "process_set_state s proc new = Some (ERR_SUCCESS, s')"
    and qa': "queues_at s' (requeue proc new L)" and sr: "same_rest s s'"
    and ul: "\<forall>x. x \<noteq> proc \<longrightarrow> map_option unlink (store s' x) = map_option unlink (store s x)"
    and r': "store s' proc = Some r'" and u': "unlink r' = unlink (r\<lparr>state := new\<rparr>)"
    and lk': "queue_ref new = None \<longrightarrow>
                (if queue_ref (state r) = None then nextp r' = nextp r \<and> prevp r' = prevp r
                 else nextp r' = 0 \<and> prevp r' = 0)"
    and fr: "\<forall>x. x \<noteq> proc \<and> (\<forall>q. x \<notin> set (L q)) \<longrightarrow> store s' x = store s x"
    by (elim exE conjE) (rule that, assumption+)
  have le: "live_entries s' = live_entries s" using sr by (rule same_rest_live)
  have tb: "process_table s' = process_table s" "process_count s' = process_count s"
    using sr by (simp_all add: same_rest_def)
  have dist: "\<And>q. distinct (L q)" using qa chain_distinct by (auto simp: queues_at_def)
  have dom: "(store s' x = None) = (store s x = None)" for x
  proof (cases "x = proc")
    case True
    then show ?thesis using r r' by simp
  next
    case False
    with ul have "map_option unlink (store s' x) = map_option unlink (store s x)" by simp
    then show ?thesis by (rule unlink_same_dom)
  qed
  have f': "state r' = new" "stack_base r' = stack_base r" "heap_base r' = heap_base r"
    using unlink_eq_fields[OF u'] by simp_all
  have sub: "\<forall>q. set (requeue proc new L q) \<subseteq> set (process_table s')"
  proof
    fix q
    have "set (L q) \<subseteq> set (process_table s)" using k by (simp add: kinv_with_def)
    moreover have "proc \<in> set (process_table s)" using live by (simp add: live_entries_def)
    moreover have "set (remove1 proc (L q)) \<subseteq> set (L q)" by (rule set_remove1_subset)
    ultimately show "set (requeue proc new L q) \<subseteq> set (process_table s')"
      by (auto simp: requeue_def tb)
  qed
  have recs': "\<forall>p \<in> set (live_entries s'). \<exists>r. store s' p = Some r
            \<and> (\<forall>q. p \<in> set (requeue proc new L q) \<longleftrightarrow> queue_ref (state r) = Some q)
            \<and> (queue_ref (state r) = None \<longrightarrow> nextp r = 0 \<and> prevp r = 0)
            \<and> stack_base r \<noteq> 0 \<and> heap_base r \<noteq> 0
            \<and> store s' (stack_base r) = None \<and> store s' (heap_base r) = None"
  proof
    fix p assume "p \<in> set (live_entries s')"
    then have p: "p \<in> set (live_entries s)" by (simp add: le)
    show "\<exists>r. store s' p = Some r
            \<and> (\<forall>q. p \<in> set (requeue proc new L q) \<longleftrightarrow> queue_ref (state r) = Some q)
            \<and> (queue_ref (state r) = None \<longrightarrow> nextp r = 0 \<and> prevp r = 0)
            \<and> stack_base r \<noteq> 0 \<and> heap_base r \<noteq> 0
            \<and> store s' (stack_base r) = None \<and> store s' (heap_base r) = None"
    proof (cases "p = proc")
      case True
      have "\<forall>q. proc \<in> set (requeue proc new L q) \<longleftrightarrow> queue_ref new = Some q"
        using dist by (simp add: requeue_def set_remove1_eq)
      moreover have "queue_ref new = None \<longrightarrow> nextp r' = 0 \<and> prevp r' = 0"
        using lk' lk by (auto split: if_splits)
      ultimately show ?thesis using True r' f' rg dom by auto
    next
      case False
      from recs[OF p] obtain rp where rp: "store s p = Some rp"
        and memp: "\<forall>q. p \<in> set (L q) \<longleftrightarrow> queue_ref (state rp) = Some q"
        and lkp: "queue_ref (state rp) = None \<longrightarrow> nextp rp = 0 \<and> prevp rp = 0"
        and rgp: "stack_base rp \<noteq> 0" "heap_base rp \<noteq> 0"
          "store s (stack_base rp) = None" "store s (heap_base rp) = None"
        by (elim exE conjE) (rule that, assumption+)
      from ul False rp have "map_option unlink (store s' p) = Some (unlink rp)" by simp
      then obtain rp' where rp': "store s' p = Some rp'" and up: "unlink rp' = unlink rp"
        by (cases "store s' p") auto
      have fp: "state rp' = state rp" "stack_base rp' = stack_base rp" "heap_base rp' = heap_base rp"
        using unlink_eq_fields[OF up] by simp_all
      have m: "\<forall>q. p \<in> set (requeue proc new L q) \<longleftrightarrow> queue_ref (state rp') = Some q"
        using memp False fp by (auto simp: requeue_def)
      have l: "queue_ref (state rp') = None \<longrightarrow> nextp rp' = 0 \<and> prevp rp' = 0"
      proof
        assume "queue_ref (state rp') = None"
        then have n: "queue_ref (state rp) = None" by (simp add: fp)
        with memp have "\<forall>q. p \<notin> set (L q)" by simp
        with fr False have "store s' p = store s p" by blast
        with rp rp' lkp n show "nextp rp' = 0 \<and> prevp rp' = 0" by simp
      qed
      show ?thesis using rp' m l fp rgp dom by auto
    qed
  qed
  have "kinv_with s' (requeue proc new L)"
    unfolding kinv_with_def using qa' sub recs' k le tb by (simp add: kinv_with_def)
  then show ?thesis using res sr ul r r' u' by blast
qed

lemma create_form:
  assumes "unat (process_count s) < length (process_table s)" "ap \<noteq> 0" "as \<noteq> 0" "ah \<noteq> 0"
  shows "process_create K s nm prio entry (ap, as, ah) =
     do { (rc, s') \<leftarrow> process_set_state (create_state K s nm prio entry ap as ah) ap PROC_STATE_READY;
          Some (ap, s') }"
  using assms
  by (simp add: process_create_def modify_def deref_def process_init_context_def Let_def
      zero_Process_def create_state_def new_Process_def)

lemma create_full: "unat (process_count s) \<ge> length (process_table s) \<Longrightarrow>
   process_create K s nm prio entry al = Some (0, s)"
  by (cases al) (simp add: process_create_def)

lemma create_no_pcb: "process_create K s nm prio entry (0, as, ah) = Some (0, s)"
  by (simp add: process_create_def)

lemma create_no_stack:
  assumes "unat (process_count s) < length (process_table s)" "ap \<noteq> 0"
  shows "process_create K s nm prio entry (ap, 0, ah) =
     Some (0, s\<lparr>store := (store s)(ap := None), next_pid := next_pid s + 1,
                 freed := freed s @ [ap]\<rparr>)"
  using assms
  by (simp add: process_create_def modify_def deref_def Let_def memory_free_def)

lemma create_no_heap:
  assumes "unat (process_count s) < length (process_table s)" "ap \<noteq> 0" "as \<noteq> 0"
  shows "process_create K s nm prio entry (ap, as, 0) =
     Some (0, s\<lparr>store := (store s)(as := None, ap := None), next_pid := next_pid s + 1,
                 freed := freed s @ [as, ap]\<rparr>)"
  using assms
  by (simp add: process_create_def modify_def deref_def Let_def memory_free_def)

lemma length_table_insert [simp]: "length (table_insert t p) = length t"
  by (induction t) auto

lemma table_insert_keeps: "x \<in> set t \<Longrightarrow> x \<noteq> 0 \<Longrightarrow> x \<in> set (table_insert t p)"
  by (induction t) auto

lemma set_live_table_insert:
  "0 \<in> set t \<Longrightarrow> p \<noteq> 0 \<Longrightarrow>
   set (filter (\<lambda>x. x \<noteq> 0) (table_insert t p)) = insert p (set (filter (\<lambda>x. x \<noteq> 0) t))"
proof (induction t)
  case Nil
  then show ?case by simp
next
  case (Cons a t)
  show ?case
  proof (cases "a = 0")
    case True
    then show ?thesis using Cons.prems by simp
  next
    case False
    then have "0 \<in> set t" using Cons.prems by auto
    then have "set (filter (\<lambda>x. x \<noteq> 0) (table_insert t p)) = insert p (set (filter (\<lambda>x. x \<noteq> 0) t))"
      using Cons by blast
    then show ?thesis using False by (simp add: insert_commute)
  qed
qed

lemma length_live_table_insert:
  "0 \<in> set t \<Longrightarrow> p \<noteq> 0 \<Longrightarrow>
   length (filter (\<lambda>x. x \<noteq> 0) (table_insert t p)) = Suc (length (filter (\<lambda>x. x \<noteq> 0) t))"
proof (induction t)
  case Nil
  then show ?case by simp
next
  case (Cons a t)
  show ?case
  proof (cases "a = 0")
    case True
    then show ?thesis using Cons.prems by simp
  next
    case False
    then have "0 \<in> set t" using Cons.prems by auto
    then show ?thesis using Cons False by simp
  qed
qed

lemma distinct_live_table_insert:
  "0 \<in> set t \<Longrightarrow> p \<noteq> 0 \<Longrightarrow> p \<notin> set t \<Longrightarrow> distinct (filter (\<lambda>x. x \<noteq> 0) t) \<Longrightarrow>
   distinct (filter (\<lambda>x. x \<noteq> 0) (table_insert t p))"
proof (induction t)
  case Nil
  then show ?case by simp
next
  case (Cons a t)
  show ?case
  proof (cases "a = 0")
    case True
    then show ?thesis using Cons.prems by simp
  next
    case False
    then have z: "0 \<in> set t" using Cons.prems by auto
    have "a \<notin> set (filter (\<lambda>x. x \<noteq> 0) (table_insert t p))"
      using set_live_table_insert[OF z Cons.prems(2)] Cons.prems False by auto
    moreover have "distinct (filter (\<lambda>x. x \<noteq> 0) (table_insert t p))"
      using Cons z False by simp
    ultimately show ?thesis using False by simp
  qed
qed

lemma free_slot: "length (filter (\<lambda>x. x \<noteq> (0::addr)) t) < length t \<Longrightarrow> 0 \<in> set t"
  by (induction t) (auto split: if_splits)

lemma get_queue_cong:
  "ready_queue s' = ready_queue s \<Longrightarrow> blocked_queue s' = blocked_queue s \<Longrightarrow>
   zombie_queue s' = zombie_queue s \<Longrightarrow> get_queue q s' = get_queue q s"
  by (cases q) simp_all

lemma kinv_cong:
  assumes st: "store s' = store s" and tb: "process_table s' = process_table s"
    and ct: "process_count s' = process_count s" and q1: "ready_queue s' = ready_queue s"
    and q2: "blocked_queue s' = blocked_queue s" and q3: "zombie_queue s' = zombie_queue s"
  shows "kinv s' = kinv s"
proof -
  have g: "\<And>q. get_queue q s' = get_queue q s" using q1 q2 q3 by (rule get_queue_cong)
  have ql: "\<And>q. queue_list s' q = queue_list s q" by (simp only: queue_list_def st tb g)
  have le: "live_entries s' = live_entries s" by (simp only: live_entries_def tb)
  have iq: "\<And>q p. in_queue s' q p = in_queue s q p" by (simp only: in_queue_def ql)
  have "queues_linked s' = queues_linked s" by (simp only: queues_linked_def ql st tb)
  moreover have "queues_consistent s' = queues_consistent s"
    by (simp only: queues_consistent_def le st iq)
  moreover have "records_ok s' = records_ok s" by (simp only: records_ok_def le st)
  moreover have "table_ok s' = table_ok s" by (simp only: table_ok_def le ct tb)
  ultimately show ?thesis by (simp only: kinv_def)
qed

lemma get_queue_create_state [simp]:
  "get_queue q (create_state K s nm prio entry ap as ah) = get_queue q s"
  by (cases q) (simp_all add: create_state_def)

lemma create_state_fields [simp]:
  "store (create_state K s nm prio entry ap as ah) =
     (store s)(ap \<mapsto> new_Process K (next_pid s) nm prio entry as ah)"
  "process_table (create_state K s nm prio entry ap as ah) = table_insert (process_table s) ap"
  "process_count (create_state K s nm prio entry ap as ah) = process_count s + 1"
  "next_pid (create_state K s nm prio entry ap as ah) = next_pid s + 1"
  "lastp (create_state K s nm prio entry ap as ah) = lastp s"
  "freed (create_state K s nm prio entry ap as ah) = freed s"
  "current_process (create_state K s nm prio entry ap as ah) = current_process s"
  by (simp_all add: create_state_def)

lemma new_Process_fields [simp]:
  "state (new_Process K n nm prio entry as ah) = PROC_STATE_NEW"
  "nextp (new_Process K n nm prio entry as ah) = 0"
  "prevp (new_Process K n nm prio entry as ah) = 0"
  "stack_base (new_Process K n nm prio entry as ah) = as"
  "heap_base (new_Process K n nm prio entry as ah) = ah"
  "pid (new_Process K n nm prio entry as ah) = n"
  "name (new_Process K n nm prio entry as ah) = take (NAME_SIZE K - 1) nm"
  by (simp_all add: new_Process_def)

lemma kinv_with_live:
  assumes "kinv_with s L" "p \<in> set (L q)"
  shows "p \<noteq> 0 \<and> store s p \<noteq> None \<and> p \<in> set (process_table s)"
proof -
  have "chain (store s) (get_queue q s) (L q) 0" using assms(1) by (simp add: kinv_with_def queues_at_def)
  then have "p \<noteq> 0 \<and> store s p \<noteq> None" using assms(2) by (rule chain_live)
  moreover have "set (L q) \<subseteq> set (process_table s)" using assms(1) by (simp add: kinv_with_def)
  ultimately show ?thesis using assms(2) by auto
qed

lemma create_state_kinv:
  assumes k: "kinv_with s L"
    and room: "unat (process_count s) < length (process_table s)"
    and ap: "ap \<noteq> 0" and as: "as \<noteq> 0" and ah: "ah \<noteq> 0"
    and fresh: "store s ap = None" "store s as = None" "store s ah = None" "as \<noteq> ap" "ah \<noteq> ap"
    and sep: "\<And>p r. p \<in> set (live_entries s) \<Longrightarrow> store s p = Some r \<Longrightarrow>
               stack_base r \<noteq> ap \<and> heap_base r \<noteq> ap"
  shows "kinv_with (create_state K s nm prio entry ap as ah) L
     \<and> ap \<in> set (live_entries (create_state K s nm prio entry ap as ah))"
proof -
  let ?s1 = "create_state K s nm prio entry ap as ah"
  let ?nr = "new_Process K (next_pid s) nm prio entry as ah"
  have cnt: "unat (process_count s) = length (live_entries s)" and dist: "distinct (live_entries s)"
    and bound: "length (process_table s) < 2 ^ 32"
    using k by (simp_all add: kinv_with_def)
  have zero: "0 \<in> set (process_table s)"
    using room cnt by (intro free_slot) (simp add: live_entries_def)
  have recs: "\<And>p. p \<in> set (live_entries s) \<Longrightarrow> \<exists>r. store s p = Some r
            \<and> (\<forall>q. p \<in> set (L q) \<longleftrightarrow> queue_ref (state r) = Some q)
            \<and> (queue_ref (state r) = None \<longrightarrow> nextp r = 0 \<and> prevp r = 0)
            \<and> stack_base r \<noteq> 0 \<and> heap_base r \<noteq> 0
            \<and> store s (stack_base r) = None \<and> store s (heap_base r) = None"
    using k unfolding kinv_with_def by blast
  have ap_notin_tab: "ap \<notin> set (process_table s)"
  proof
    assume "ap \<in> set (process_table s)"
    then have "ap \<in> set (live_entries s)" using ap by (simp add: live_entries_def)
    from recs[OF this] fresh(1) show False by auto
  qed
  have ap_notin_L: "\<And>q. ap \<notin> set (L q)"
    using kinv_with_live[OF k] fresh(1) by blast
  have le: "set (live_entries ?s1) = insert ap (set (live_entries s))"
    using set_live_table_insert[OF zero ap] by (simp add: live_entries_def)
  have len: "length (live_entries ?s1) = Suc (length (live_entries s))"
    using length_live_table_insert[OF zero ap] by (simp add: live_entries_def)
  have dist1: "distinct (live_entries ?s1)"
    using distinct_live_table_insert[OF zero ap ap_notin_tab] dist by (simp add: live_entries_def)
  have qa: "queues_at ?s1 L"
    unfolding queues_at_def
  proof (intro allI)
    fix q
    have c: "chain (store s) (get_queue q s) (L q) 0" and p: "prev_ok (store s) 0 (L q)"
      using k by (simp_all add: kinv_with_def queues_at_def)
    have fr: "\<And>x. x \<in> set (L q) \<Longrightarrow> store ?s1 x = store s x"
      using ap_notin_L by auto
    have "chain (store ?s1) (get_queue q s) (L q) 0" using c fr by (rule chain_frame_eq)
    moreover have "prev_ok (store ?s1) 0 (L q)" using p fr by (rule prev_ok_frame_eq)
    ultimately show "chain (store ?s1) (get_queue q ?s1) (L q) 0 \<and> prev_ok (store ?s1) 0 (L q)"
      by (simp only: get_queue_create_state)
  qed
  have sub: "\<forall>q. set (L q) \<subseteq> set (process_table ?s1)"
  proof (intro allI subsetI)
    fix q x assume "x \<in> set (L q)"
    then have "x \<noteq> 0 \<and> store s x \<noteq> None \<and> x \<in> set (process_table s)"
      by (rule kinv_with_live[OF k])
    then show "x \<in> set (process_table ?s1)" by (simp add: table_insert_keeps)
  qed
  have recs1: "\<forall>p \<in> set (live_entries ?s1). \<exists>r. store ?s1 p = Some r
            \<and> (\<forall>q. p \<in> set (L q) \<longleftrightarrow> queue_ref (state r) = Some q)
            \<and> (queue_ref (state r) = None \<longrightarrow> nextp r = 0 \<and> prevp r = 0)
            \<and> stack_base r \<noteq> 0 \<and> heap_base r \<noteq> 0
            \<and> store ?s1 (stack_base r) = None \<and> store ?s1 (heap_base r) = None"
  proof
    fix p assume "p \<in> set (live_entries ?s1)"
    then have "p = ap \<or> p \<in> set (live_entries s)" using le by simp
    then show "\<exists>r. store ?s1 p = Some r
            \<and> (\<forall>q. p \<in> set (L q) \<longleftrightarrow> queue_ref (state r) = Some q)
            \<and> (queue_ref (state r) = None \<longrightarrow> nextp r = 0 \<and> prevp r = 0)
            \<and> stack_base r \<noteq> 0 \<and> heap_base r \<noteq> 0
            \<and> store ?s1 (stack_base r) = None \<and> store ?s1 (heap_base r) = None"
    proof
      assume "p = ap"
      then show ?thesis using ap_notin_L as ah fresh by (intro exI[of _ ?nr]) simp
    next
      assume p: "p \<in> set (live_entries s)"
      from recs[OF p] obtain r where r: "store s p = Some r"
        and m: "\<forall>q. p \<in> set (L q) \<longleftrightarrow> queue_ref (state r) = Some q"
        and l: "queue_ref (state r) = None \<longrightarrow> nextp r = 0 \<and> prevp r = 0"
        and g: "stack_base r \<noteq> 0" "heap_base r \<noteq> 0"
          "store s (stack_base r) = None" "store s (heap_base r) = None"
        by (elim exE conjE) (rule that, assumption+)
      have pne: "p \<noteq> ap" using r fresh(1) by auto
      have "stack_base r \<noteq> ap \<and> heap_base r \<noteq> ap" using sep[OF p r] .
      then show ?thesis using pne r m l g by (intro exI[of _ r]) simp
    qed
  qed
  have "unat (process_count s) + 1 < 2 ^ 32" using room bound by simp
  then have "unat (process_count s + 1) = Suc (unat (process_count s))"
    by (simp add: unat_word_ariths)
  then have cnt1: "unat (process_count ?s1) = length (live_entries ?s1)"
    using cnt len by simp
  have bound1: "length (process_table ?s1) < 2 ^ 32" using bound by simp
  have "kinv_with ?s1 L"
    unfolding kinv_with_def using qa sub recs1 dist1 cnt1 bound1 by (intro conjI)
  moreover have "ap \<in> set (live_entries ?s1)" using le by simp
  ultimately show ?thesis by simp
qed

lemma create_kinv:
  assumes k: "kinv s" and a: "alloc_ok s (ap, as, ah)"
  shows "\<exists>p s'. process_create K s nm prio entry (ap, as, ah) = Some (p, s') \<and> kinv s'"
proof (cases "unat (process_count s) < length (process_table s)")
  case False
  then have "process_create K s nm prio entry (ap, as, ah) = Some (0, s)"
    by (simp add: create_full)
  with k show ?thesis by simp
next
  case room: True
  show ?thesis
  proof (cases "ap = 0")
    case True
    then have "process_create K s nm prio entry (ap, as, ah) = Some (0, s)"
      by (simp add: create_no_pcb)
    with k show ?thesis by simp
  next
    case ap: False
    from a ap have fresh: "store s ap = None"
      and sep0: "\<forall>p \<in> set (live_entries s). case store s p of None \<Rightarrow> True
                 | Some r \<Rightarrow> stack_base r \<noteq> ap \<and> heap_base r \<noteq> ap"
      and rest: "as \<noteq> 0 \<longrightarrow> store s as = None \<and> as \<noteq> ap
                \<and> (ah \<noteq> 0 \<longrightarrow> store s ah = None \<and> ah \<noteq> ap)"
      by (simp_all add: alloc_ok_def)
    show ?thesis
    proof (cases "as = 0")
      case True
      let ?s' = "s\<lparr>store := (store s)(ap := None), next_pid := next_pid s + 1,
                 freed := freed s @ [ap]\<rparr>"
      have res: "process_create K s nm prio entry (ap, as, ah) = Some (0, ?s')"
        using True create_no_stack[OF room ap] by simp
      have "store ?s' = store s" using fresh by (simp add: fun_upd_idem)
      then have "kinv ?s' = kinv s" by (rule kinv_cong) simp_all
      with k res show ?thesis by simp
    next
      case as: False
      with rest have fresh_as: "store s as = None" "as \<noteq> ap"
        and rest2: "ah \<noteq> 0 \<longrightarrow> store s ah = None \<and> ah \<noteq> ap"
        by simp_all
      show ?thesis
      proof (cases "ah = 0")
        case True
        let ?s' = "s\<lparr>store := (store s)(as := None, ap := None), next_pid := next_pid s + 1,
                 freed := freed s @ [as, ap]\<rparr>"
        have res: "process_create K s nm prio entry (ap, as, ah) = Some (0, ?s')"
          using True create_no_heap[OF room ap as] by simp
        have "store ?s' = store s" using fresh fresh_as by (simp add: fun_upd_idem)
        then have "kinv ?s' = kinv s" by (rule kinv_cong) simp_all
        with k res show ?thesis by simp
      next
        case ah: False
        with rest2 have fresh_ah: "store s ah = None" "ah \<noteq> ap" by simp_all
        let ?L = "\<lambda>q. the (queue_list s q)"
        let ?s1 = "create_state K s nm prio entry ap as ah"
        have kw: "kinv_with s ?L" using k by (rule kinv_withD)
        have sep: "\<And>p r. p \<in> set (live_entries s) \<Longrightarrow> store s p = Some r \<Longrightarrow>
               stack_base r \<noteq> ap \<and> heap_base r \<noteq> ap"
          using sep0 by fastforce
        from create_state_kinv[where K=K and nm=nm and prio=prio and entry=entry,
            OF kw room ap as ah fresh fresh_as(1) fresh_ah(1) fresh_as(2) fresh_ah(2) sep]
        have k1: "kinv_with ?s1 ?L" and l1: "ap \<in> set (live_entries ?s1)" by simp_all
        from set_state_kinv[OF k1 l1, of PROC_STATE_READY] obtain s' where
          st: "process_set_state ?s1 ap PROC_STATE_READY = Some (ERR_SUCCESS, s')"
          and k': "kinv_with s' (requeue ap PROC_STATE_READY ?L)"
          and sr: "same_rest ?s1 s'"
          by (elim exE conjE) (rule that, assumption+)
        have res: "process_create K s nm prio entry (ap, as, ah) = Some (ap, s')"
          using create_form[OF room ap as ah, where K=K and nm=nm and prio=prio and entry=entry] st by simp
        from k' have "kinv s'" by (rule kinv_withI)
        with res show ?thesis by simp
      qed
    qed
  qed
qed

lemma length_table_remove [simp]: "length (table_remove t z) = length t"
  by (induction t) auto

lemma table_remove_map:
  "distinct (filter (\<lambda>x. x \<noteq> 0) t) \<Longrightarrow> z \<noteq> 0 \<Longrightarrow>
   table_remove t z = map (\<lambda>x. if x = z then 0 else x) t"
proof (induction t)
  case Nil
  then show ?case by simp
next
  case (Cons a t)
  show ?case
  proof (cases "a = z")
    case True
    with Cons.prems have "z \<notin> set t" by auto
    then have "map (\<lambda>x. if x = z then 0 else x) t = t" by (induction t) auto
    with True show ?thesis by simp
  next
    case False
    have "distinct (filter (\<lambda>x. x \<noteq> 0) t)" using Cons.prems(1) by (simp split: if_splits)
    with Cons False show ?thesis by simp
  qed
qed

lemma filter_map_zero:
  "filter (\<lambda>x. x \<noteq> 0) (map (\<lambda>x. if P x then 0 else x) t) =
   filter (\<lambda>x. \<not> P x) (filter (\<lambda>x. x \<noteq> (0::addr)) t)"
  by (induction t) auto

lemma reap_loop_chain:
  assumes "chain (store s) cur zs 0"
    and "\<forall>z \<in> set zs. \<exists>r. store s z = Some r \<and> stack_base r \<noteq> 0 \<and> heap_base r \<noteq> 0
           \<and> store s (stack_base r) = None \<and> store s (heap_base r) = None"
    and "distinct (filter (\<lambda>x. x \<noteq> 0) (process_table s))"
  shows "\<exists>s'. reap_loop s cur = Some s'
     \<and> store s' = (\<lambda>x. if x \<in> set zs then None else store s x)
     \<and> process_table s' = map (\<lambda>x. if x \<in> set zs then 0 else x) (process_table s)
     \<and> process_count s' = process_count s - of_nat (length zs)
     \<and> freed s' = freed s @ zombie_frees (store s) zs
     \<and> next_pid s' = next_pid s \<and> ready_queue s' = ready_queue s
     \<and> blocked_queue s' = blocked_queue s \<and> zombie_queue s' = zombie_queue s
     \<and> lastp s' = lastp s \<and> current_process s' = current_process s
     \<and> cpu s' = cpu s \<and> ram s' = ram s"
  using assms
proof (induction zs arbitrary: s cur)
  case Nil
  then have "cur = 0" by simp
  then show ?case by (subst reap_loop.simps) (simp add: zombie_frees_def)
next
  case (Cons z zs)
  from Cons.prems(1) obtain r where cz: "cur = z" and zn: "z \<noteq> 0" and r: "store s z = Some r"
    and ch: "chain (store s) (nextp r) zs 0"
    by auto
  from Cons.prems(2) r have rg: "stack_base r \<noteq> 0" "heap_base r \<noteq> 0"
    "store s (stack_base r) = None" "store s (heap_base r) = None"
    by auto
  have nz: "z \<notin> set zs" using Cons.prems(1) by (rule chain_not_in_tail)
  have ne: "stack_base r \<noteq> z" "heap_base r \<noteq> z" using rg r by auto
  let ?s5 = "s\<lparr>process_table := table_remove (process_table s) z,
                store := (store s)(z := None),
                freed := freed s @ [stack_base r, heap_base r, z],
                process_count := process_count s - 1\<rparr>"
  have st1: "(store s)(stack_base r := None) = store s"
    using rg(3) by (simp add: fun_upd_idem)
  have st2: "(store s)(heap_base r := None) = store s"
    using rg(4) by (simp add: fun_upd_idem)
  have step: "reap_loop s cur = reap_loop ?s5 (nextp r)"
    using cz zn r rg ne
    by (subst reap_loop.simps) (simp add: deref_def memory_free_def Let_def st1 st2)
  have tr: "table_remove (process_table s) z = map (\<lambda>x. if x = z then 0 else x) (process_table s)"
    using Cons.prems(3) zn by (rule table_remove_map)
  have ch5: "chain (store ?s5) (nextp r) zs 0"
    using ch nz by (intro chain_frame_eq[OF ch]) auto
  have pre5: "\<forall>z' \<in> set zs. \<exists>r'. store ?s5 z' = Some r' \<and> stack_base r' \<noteq> 0
        \<and> heap_base r' \<noteq> 0 \<and> store ?s5 (stack_base r') = None \<and> store ?s5 (heap_base r') = None"
  proof
    fix z' assume z': "z' \<in> set zs"
    then have "z' \<noteq> z" using nz by auto
    moreover from Cons.prems(2) z' obtain r' where "store s z' = Some r'"
      "stack_base r' \<noteq> 0" "heap_base r' \<noteq> 0" "store s (stack_base r') = None"
      "store s (heap_base r') = None" by auto
    ultimately show "\<exists>r'. store ?s5 z' = Some r' \<and> stack_base r' \<noteq> 0
        \<and> heap_base r' \<noteq> 0 \<and> store ?s5 (stack_base r') = None \<and> store ?s5 (heap_base r') = None"
      by (intro exI[of _ r']) simp
  qed
  have "distinct (filter (\<lambda>x. \<not> x = z) (filter (\<lambda>x. x \<noteq> 0) (process_table s)))"
    using Cons.prems(3) by (rule distinct_filter)
  then have d5: "distinct (filter (\<lambda>x. x \<noteq> 0) (process_table ?s5))"
    by (simp add: tr filter_map_zero)
  from Cons.IH[OF ch5 pre5 d5] obtain s' where
    res: "reap_loop ?s5 (nextp r) = Some s'"
    and st: "store s' = (\<lambda>x. if x \<in> set zs then None else store ?s5 x)"
    and tb: "process_table s' = map (\<lambda>x. if x \<in> set zs then 0 else x) (process_table ?s5)"
    and ct: "process_count s' = process_count ?s5 - of_nat (length zs)"
    and fr: "freed s' = freed ?s5 @ zombie_frees (store ?s5) zs"
    and rest: "next_pid s' = next_pid ?s5" "ready_queue s' = ready_queue ?s5"
      "blocked_queue s' = blocked_queue ?s5" "zombie_queue s' = zombie_queue ?s5"
      "lastp s' = lastp ?s5" "current_process s' = current_process ?s5"
      "cpu s' = cpu ?s5" "ram s' = ram ?s5"
    by (elim exE conjE) (rule that, assumption+)
  have zf: "zombie_frees (store ?s5) zs = zombie_frees (store s) zs"
    unfolding zombie_frees_def using nz by (intro arg_cong[where f=concat] map_cong) auto
  have "store s' = (\<lambda>x. if x \<in> set (z # zs) then None else store s x)"
    using st by (auto simp: fun_eq_iff)
  moreover have "process_table s' = map (\<lambda>x. if x \<in> set (z # zs) then 0 else x) (process_table s)"
    using tb tr by simp
  moreover have "process_count s' = process_count s - of_nat (length (z # zs))"
    using ct by simp
  moreover have "freed s' = freed s @ zombie_frees (store s) (z # zs)"
    using fr zf r by (simp add: zombie_frees_def)
  ultimately show ?case using step res rest by simp
qed

lemma length_filter_notin:
  assumes "distinct xs" "distinct zs" "set zs \<subseteq> set xs"
  shows "length (filter (\<lambda>x. x \<notin> set zs) xs) = length xs - length zs"
proof -
  have "length (filter (\<lambda>x. x \<in> set zs) xs) = card ({x. x \<in> set zs} \<inter> set xs)"
    using assms(1) by (rule distinct_length_filter)
  also have "{x. x \<in> set zs} \<inter> set xs = set zs" using assms(3) by auto
  also have "card (set zs) = length zs" using assms(2) by (rule distinct_card)
  finally have "length (filter (\<lambda>x. x \<in> set zs) xs) = length zs" .
  moreover have "length (filter (\<lambda>x. x \<in> set zs) xs) + length (filter (\<lambda>x. \<not> x \<in> set zs) xs) = length xs"
    by (rule sum_length_filter_compl)
  ultimately show ?thesis by simp
qed

lemma unat_sub_of_nat:
  fixes c :: u32
  assumes "n \<le> unat c"
  shows "unat (c - of_nat n) = unat c - n"
proof -
  have lt: "n < 2 ^ 32" using assms unsigned_less[of c, where 'a=nat] by (simp add: order_le_less_trans)
  then have u: "unat (of_nat n :: u32) = n" by (simp add: unat_of_nat)
  then have "(of_nat n :: u32) \<le> c" using assms by (simp add: word_le_nat_alt)
  then show ?thesis using u by (simp add: unat_sub)
qed

lemma reap_ok:
  assumes k: "kinv_with s L"
  shows "\<exists>s'. process_reap_zombies s = Some s' \<and> kinv_with s' (L(Q_ZOMBIE := []))
     \<and> zombie_queue s' = 0
     \<and> store s' = (\<lambda>x. if x \<in> set (L Q_ZOMBIE) then None else store s x)
     \<and> process_table s' = map (\<lambda>x. if x \<in> set (L Q_ZOMBIE) then 0 else x) (process_table s)
     \<and> process_count s' = process_count s - of_nat (length (L Q_ZOMBIE))
     \<and> freed s' = freed s @ zombie_frees (store s) (L Q_ZOMBIE)
     \<and> next_pid s' = next_pid s \<and> ready_queue s' = ready_queue s
     \<and> blocked_queue s' = blocked_queue s
     \<and> lastp s' = lastp s \<and> current_process s' = current_process s
     \<and> cpu s' = cpu s \<and> ram s' = ram s"
proof -
  let ?zs = "L Q_ZOMBIE"
  let ?L' = "L(Q_ZOMBIE := [])"
  have qa: "queues_at s L" and dist: "distinct (live_entries s)"
    and cnt: "unat (process_count s) = length (live_entries s)"
    and bound: "length (process_table s) < 2 ^ 32"
    using k by (simp_all add: kinv_with_def)
  have disj: "\<forall>q q'. q \<noteq> q' \<longrightarrow> set (L q) \<inter> set (L q') = {}" using k by (rule kinv_with_disjoint)
  have recs: "\<And>p. p \<in> set (live_entries s) \<Longrightarrow> \<exists>r. store s p = Some r
            \<and> (\<forall>q. p \<in> set (L q) \<longleftrightarrow> queue_ref (state r) = Some q)
            \<and> (queue_ref (state r) = None \<longrightarrow> nextp r = 0 \<and> prevp r = 0)
            \<and> stack_base r \<noteq> 0 \<and> heap_base r \<noteq> 0
            \<and> store s (stack_base r) = None \<and> store s (heap_base r) = None"
    using k unfolding kinv_with_def by blast
  have zlive: "\<And>z. z \<in> set ?zs \<Longrightarrow> z \<in> set (live_entries s)"
    using kinv_with_live[OF k] by (simp add: live_entries_def)
  have ch: "chain (store s) (zombie_queue s) ?zs 0"
    using qa get_queue.simps(3) unfolding queues_at_def by metis
  have pre: "\<forall>z \<in> set ?zs. \<exists>r. store s z = Some r \<and> stack_base r \<noteq> 0 \<and> heap_base r \<noteq> 0
           \<and> store s (stack_base r) = None \<and> store s (heap_base r) = None"
  proof
    fix z assume "z \<in> set ?zs"
    then have "z \<in> set (live_entries s)" by (rule zlive)
    from recs[OF this] show "\<exists>r. store s z = Some r \<and> stack_base r \<noteq> 0 \<and> heap_base r \<noteq> 0
           \<and> store s (stack_base r) = None \<and> store s (heap_base r) = None" by auto
  qed
  have d0: "distinct (filter (\<lambda>x. x \<noteq> 0) (process_table s))"
    using dist by (simp add: live_entries_def)
  from reap_loop_chain[OF ch pre d0] obtain s1 where
    res: "reap_loop s (zombie_queue s) = Some s1"
    and st: "store s1 = (\<lambda>x. if x \<in> set ?zs then None else store s x)"
    and tb: "process_table s1 = map (\<lambda>x. if x \<in> set ?zs then 0 else x) (process_table s)"
    and ct: "process_count s1 = process_count s - of_nat (length ?zs)"
    and fr: "freed s1 = freed s @ zombie_frees (store s) ?zs"
    and rest: "next_pid s1 = next_pid s" "ready_queue s1 = ready_queue s"
      "blocked_queue s1 = blocked_queue s" "zombie_queue s1 = zombie_queue s"
      "lastp s1 = lastp s" "current_process s1 = current_process s"
      "cpu s1 = cpu s" "ram s1 = ram s"
    by (elim exE conjE) (rule that, assumption+)
  let ?s' = "s1\<lparr>zombie_queue := 0\<rparr>"
  have run: "process_reap_zombies s = Some ?s'" using res by (simp add: process_reap_zombies_def)
  have gq: "\<And>q. q \<noteq> Q_ZOMBIE \<Longrightarrow> get_queue q ?s' = get_queue q s"
  proof -
    fix q :: QueueRef assume "q \<noteq> Q_ZOMBIE"
    then show "get_queue q ?s' = get_queue q s" using rest by (cases q) simp_all
  qed
  have le: "live_entries ?s' = filter (\<lambda>x. x \<notin> set ?zs) (live_entries s)"
    by (simp add: live_entries_def tb filter_map_zero)
  have qa': "queues_at ?s' ?L'"
    unfolding queues_at_def
  proof (intro allI)
    fix q
    show "chain (store ?s') (get_queue q ?s') (?L' q) 0 \<and> prev_ok (store ?s') 0 (?L' q)"
    proof (cases "q = Q_ZOMBIE")
      case True
      then show ?thesis by simp
    next
      case False
      have c: "chain (store s) (get_queue q s) (L q) 0" and p: "prev_ok (store s) 0 (L q)"
        using qa by (simp_all add: queues_at_def)
      have f: "\<And>x. x \<in> set (L q) \<Longrightarrow> store ?s' x = store s x"
        using disj False st by auto
      have "chain (store ?s') (get_queue q s) (L q) 0" using c f by (rule chain_frame_eq)
      moreover have "prev_ok (store ?s') 0 (L q)" using p f by (rule prev_ok_frame_eq)
      ultimately show ?thesis using False gq by simp
    qed
  qed
  have sub: "\<forall>q. set (?L' q) \<subseteq> set (process_table ?s')"
  proof (intro allI subsetI)
    fix q x assume x: "x \<in> set (?L' q)"
    then have qz: "q \<noteq> Q_ZOMBIE" by (auto split: if_splits)
    with x have xl: "x \<in> set (L q)" by simp
    then have "x \<in> set (process_table s)" using kinv_with_live[OF k] by blast
    moreover have "x \<notin> set ?zs" using disj qz xl by auto
    ultimately show "x \<in> set (process_table ?s')" by (force simp: tb)
  qed
  have recs': "\<forall>p \<in> set (live_entries ?s'). \<exists>r. store ?s' p = Some r
            \<and> (\<forall>q. p \<in> set (?L' q) \<longleftrightarrow> queue_ref (state r) = Some q)
            \<and> (queue_ref (state r) = None \<longrightarrow> nextp r = 0 \<and> prevp r = 0)
            \<and> stack_base r \<noteq> 0 \<and> heap_base r \<noteq> 0
            \<and> store ?s' (stack_base r) = None \<and> store ?s' (heap_base r) = None"
  proof
    fix p assume "p \<in> set (live_entries ?s')"
    then have p: "p \<in> set (live_entries s)" and pz: "p \<notin> set ?zs" by (simp_all add: le)
    from recs[OF p] obtain r where r: "store s p = Some r"
      and m: "\<forall>q. p \<in> set (L q) \<longleftrightarrow> queue_ref (state r) = Some q"
      and l: "queue_ref (state r) = None \<longrightarrow> nextp r = 0 \<and> prevp r = 0"
      and g: "stack_base r \<noteq> 0" "heap_base r \<noteq> 0"
        "store s (stack_base r) = None" "store s (heap_base r) = None"
      by (elim exE conjE) (rule that, assumption+)
    have m': "\<forall>q. p \<in> set (?L' q) \<longleftrightarrow> queue_ref (state r) = Some q"
      using m pz by auto
    show "\<exists>r. store ?s' p = Some r
            \<and> (\<forall>q. p \<in> set (?L' q) \<longleftrightarrow> queue_ref (state r) = Some q)
            \<and> (queue_ref (state r) = None \<longrightarrow> nextp r = 0 \<and> prevp r = 0)
            \<and> stack_base r \<noteq> 0 \<and> heap_base r \<noteq> 0
            \<and> store ?s' (stack_base r) = None \<and> store ?s' (heap_base r) = None"
      using r pz m' l g by (intro exI[of _ r]) (simp add: st)
  qed
  have dz: "distinct ?zs" using ch by (rule chain_distinct)
  have zsub: "set ?zs \<subseteq> set (live_entries s)" using zlive by blast
  have len: "length (live_entries ?s') = length (live_entries s) - length ?zs"
    unfolding le using dist dz zsub by (rule length_filter_notin)
  have "length ?zs \<le> length (live_entries s)" using dz zsub by (rule sublist_length)
  then have "length ?zs \<le> unat (process_count s)" using cnt by simp
  then have "unat (process_count s - of_nat (length ?zs)) = unat (process_count s) - length ?zs"
    by (rule unat_sub_of_nat)
  then have cnt': "unat (process_count ?s') = length (live_entries ?s')"
    using ct cnt len by simp
  have dist': "distinct (live_entries ?s')" unfolding le using dist by (rule distinct_filter)
  have bound': "length (process_table ?s') < 2 ^ 32" using bound by (simp add: tb)
  have "kinv_with ?s' ?L'"
    unfolding kinv_with_def using qa' sub recs' dist' cnt' bound' by (intro conjI)
  then show ?thesis using run st tb ct fr rest by simp
qed

lemma skip_all:
  "chain h p xs 0 \<Longrightarrow> \<forall>x \<in> set xs. \<forall>r. h x = Some r \<longrightarrow> state r \<noteq> PROC_STATE_READY \<Longrightarrow>
   skip_not_ready h p = Some 0"
proof (induction xs arbitrary: p)
  case Nil
  then show ?case by (subst skip_not_ready.simps) simp
next
  case (Cons x xs)
  from Cons.prems(1) obtain r where px: "p = x" and xz: "x \<noteq> 0" and r: "h x = Some r"
    and ch: "chain h (nextp r) xs 0" by auto
  have nr: "state r \<noteq> PROC_STATE_READY" using Cons.prems(2) r by simp
  have "skip_not_ready h (nextp r) = Some 0" using ch Cons.prems(2) by (intro Cons.IH) simp_all
  then show ?case using px xz r nr by (subst skip_not_ready.simps) simp
qed

lemma skip_ready:
  "p \<noteq> 0 \<Longrightarrow> h p = Some r \<Longrightarrow> state r = PROC_STATE_READY \<Longrightarrow> skip_not_ready h p = Some p"
  by (subst skip_not_ready.simps) simp

lemma skip_zero: "skip_not_ready h 0 = Some 0"
  by (subst skip_not_ready.simps) simp

lemma select_next_state:
  "scheduler_select_next s = Some (p, s') \<Longrightarrow> s' = s\<lparr>lastp := lastp s'\<rparr>"
  by (auto simp: scheduler_select_next_def Let_def split: if_splits bind_splits)

lemma select_next_empty:
  "ready_queue s = 0 \<Longrightarrow>
   scheduler_select_next s = (case process_find s ''idle'' of None \<Rightarrow> None | Some idle \<Rightarrow> Some (idle, s))"
  by (simp add: scheduler_select_next_def split: option.splits)

lemma queue_ref_ready: "queue_ref st = Some Q_READY \<longleftrightarrow> st = PROC_STATE_READY"
  by (cases st) simp_all

lemma get_queue_lastp [simp]: "get_queue q (s\<lparr>lastp := l\<rparr>) = get_queue q s"
  by (cases q) simp_all

lemma kinv_with_lastp [simp]: "kinv_with (s\<lparr>lastp := l\<rparr>) L = kinv_with s L"
  by (simp add: kinv_with_def queues_at_def live_entries_def)

lemma kinv_with_chain:
  assumes "kinv_with s L"
  shows "chain (store s) (get_queue q s) (L q) 0" "prev_ok (store s) 0 (L q)"
proof -
  have "queues_at s L" using assms by (simp add: kinv_with_def)
  then show "chain (store s) (get_queue q s) (L q) 0" "prev_ok (store s) 0 (L q)"
    by (simp_all add: queues_at_def)
qed

lemma kinv_with_recs:
  assumes "kinv_with s L" "p \<in> set (live_entries s)"
  shows "\<exists>r. store s p = Some r
            \<and> (\<forall>q. p \<in> set (L q) \<longleftrightarrow> queue_ref (state r) = Some q)
            \<and> (queue_ref (state r) = None \<longrightarrow> nextp r = 0 \<and> prevp r = 0)
            \<and> stack_base r \<noteq> 0 \<and> heap_base r \<noteq> 0
            \<and> store s (stack_base r) = None \<and> store s (heap_base r) = None"
  using assms unfolding kinv_with_def by blast

lemma kinv_with_rec:
  assumes "kinv_with s L" "p \<in> set (L q)"
  shows "p \<noteq> 0 \<and> p \<in> set (live_entries s) \<and> (\<exists>r. store s p = Some r \<and> queue_ref (state r) = Some q)"
proof -
  from kinv_with_live[OF assms] have l: "p \<noteq> 0" "p \<in> set (process_table s)" by simp_all
  then have le: "p \<in> set (live_entries s)" by (simp add: live_entries_def)
  from kinv_with_recs[OF assms(1) le] obtain r where r: "store s p = Some r"
    and m: "\<forall>q. p \<in> set (L q) \<longleftrightarrow> queue_ref (state r) = Some q"
    by (elim exE conjE) (rule that, assumption+)
  from m assms(2) have "queue_ref (state r) = Some q" by simp
  with r l(1) le show ?thesis by simp
qed

lemma select_null_eq:
  "lastp s = 0 \<Longrightarrow> ready_queue s \<noteq> 0 \<Longrightarrow>
   scheduler_select_next s = scheduler_select_next (s\<lparr>lastp := ready_queue s\<rparr>)"
  by (simp add: scheduler_select_next_def Let_def process_find_def deref_def)

lemma select_in:
  assumes k: "kinv_with s L" and dec: "L Q_READY = pre @ l # post" and lp: "lastp s = l"
  shows "scheduler_select_next s =
     Some (hd (post @ pre @ [l]), s\<lparr>lastp := hd (post @ pre @ [l])\<rparr>)"
proof -
  have ch: "chain (store s) (ready_queue s) (pre @ l # post) 0"
    using kinv_with_chain(1)[OF k, of Q_READY] dec by simp
  have rdy: "\<And>x. x \<in> set (pre @ l # post) \<Longrightarrow>
      x \<noteq> 0 \<and> (\<exists>r. store s x = Some r \<and> state r = PROC_STATE_READY)"
    using kinv_with_rec[OF k, of _ Q_READY] dec by (auto simp: queue_ref_ready)
  from ch obtain rl where c_pre: "chain (store s) (ready_queue s) pre l"
    and lz: "l \<noteq> 0" and rl: "store s l = Some rl" and c_post: "chain (store s) (nextp rl) post 0"
    by (auto simp: chain_append)
  have hd_eq: "ready_queue s = hd (pre @ [l])"
    using c_pre by (cases pre) auto
  have hd_in: "hd (pre @ [l]) \<in> set (pre @ l # post)" by (cases pre) auto
  from rdy[OF hd_in] obtain rh where hz: "hd (pre @ [l]) \<noteq> 0"
    and rh: "store s (hd (pre @ [l])) = Some rh" "state rh = PROC_STATE_READY" by blast
  have rq: "ready_queue s \<noteq> 0" using hd_eq hz by simp
  show ?thesis
  proof (cases post)
    case Nil
    with c_post have n0: "nextp rl = 0" by simp
    have sk: "skip_not_ready (store s) (ready_queue s) = Some (hd (pre @ [l]))"
      using hd_eq hz rh by (simp add: skip_ready)
    show ?thesis using Nil rq lp lz rl n0 sk hz
      by (simp add: scheduler_select_next_def Let_def deref_def skip_zero)
  next
    case (Cons y post')
    with c_post have ny: "nextp rl = y" by auto
    have "y \<in> set (pre @ l # post)" using Cons by simp
    from rdy[OF this] obtain ry where yz: "y \<noteq> 0" and ry: "store s y = Some ry"
      "state ry = PROC_STATE_READY" by blast
    have sk: "skip_not_ready (store s) y = Some y" using yz ry by (rule skip_ready)
    show ?thesis using Cons rq lp lz rl ny sk yz
      by (simp add: scheduler_select_next_def Let_def deref_def)
  qed
qed

lemma select_null:
  assumes k: "kinv_with s L" and dec: "L Q_READY = x # xs" and lp: "lastp s = 0"
  shows "scheduler_select_next s = Some (hd (xs @ [x]), s\<lparr>lastp := hd (xs @ [x])\<rparr>)"
proof -
  have ch: "chain (store s) (ready_queue s) (x # xs) 0"
    using kinv_with_chain(1)[OF k, of Q_READY] dec by simp
  then have rq: "ready_queue s = x" "x \<noteq> 0" by auto
  let ?s1 = "s\<lparr>lastp := ready_queue s\<rparr>"
  have k1: "kinv_with ?s1 L" using k by simp
  have "scheduler_select_next ?s1 = Some (hd (xs @ [] @ [x]), ?s1\<lparr>lastp := hd (xs @ [] @ [x])\<rparr>)"
    using rq by (intro select_in[OF k1]) (simp_all add: dec)
  then show ?thesis using select_null_eq[OF lp] rq by simp
qed

lemma select_out:
  assumes k: "kinv_with s L" and dec: "L Q_READY = x # xs"
    and lp: "lastp s \<in> set (live_entries s)" and out: "lastp s \<notin> set (L Q_READY)"
  shows "scheduler_select_next s = Some (x, s\<lparr>lastp := x\<rparr>)"
proof -
  let ?l = "lastp s"
  have ch: "chain (store s) (ready_queue s) (x # xs) 0"
    using kinv_with_chain(1)[OF k, of Q_READY] dec by simp
  then have rq: "ready_queue s = x" "x \<noteq> 0" by auto
  have "x \<in> set (L Q_READY)" using dec by simp
  from kinv_with_rec[OF k this] obtain rx where rx: "store s x = Some rx" "state rx = PROC_STATE_READY"
    by (auto simp: queue_ref_ready)
  have skx: "skip_not_ready (store s) x = Some x" using rq(2) rx by (rule skip_ready)
  have lz: "?l \<noteq> 0" using lp by (simp add: live_entries_def)
  from kinv_with_recs[OF k lp] obtain rl where rl: "store s ?l = Some rl"
    and m: "\<forall>q. ?l \<in> set (L q) \<longleftrightarrow> queue_ref (state rl) = Some q"
    and lk: "queue_ref (state rl) = None \<longrightarrow> nextp rl = 0 \<and> prevp rl = 0"
    by (elim exE conjE) (rule that, assumption+)
  have sk: "skip_not_ready (store s) (nextp rl) = Some 0"
  proof (cases "queue_ref (state rl)")
    case None
    with lk show ?thesis by (simp add: skip_zero)
  next
    case (Some q)
    with m have lin: "?l \<in> set (L q)" by simp
    with out have qr: "q \<noteq> Q_READY" by auto
    from lin obtain pre post where d: "L q = pre @ ?l # post" by (auto simp: in_set_conv_decomp)
    have "chain (store s) (get_queue q s) (pre @ ?l # post) 0"
      using kinv_with_chain(1)[OF k, of q] d by simp
    then have cp: "chain (store s) (nextp rl) post 0" using rl by (auto simp: chain_append)
    have "\<forall>y \<in> set post. \<forall>r. store s y = Some r \<longrightarrow> state r \<noteq> PROC_STATE_READY"
    proof (intro ballI allI impI)
      fix y r assume y: "y \<in> set post" and r: "store s y = Some r"
      then have "y \<in> set (L q)" using d by simp
      from kinv_with_rec[OF k this] r have "queue_ref (state r) = Some q" by auto
      with qr show "state r \<noteq> PROC_STATE_READY" by auto
    qed
    with cp show ?thesis by (rule skip_all)
  qed
  show ?thesis using rq lz rl sk skx
    by (simp add: scheduler_select_next_def Let_def deref_def)
qed

lemma cycle_of_Suc:
  assumes "ys \<noteq> []"
  shows "cycle_of ys (Suc n) = hd ys # cycle_of (rotate1 ys) n"
proof -
  have len: "0 < length ys" using assms by simp
  have "map (\<lambda>i. ys ! (i mod length ys)) [0..<Suc n] =
        ys ! (0 mod length ys) # map (\<lambda>i. ys ! (Suc i mod length ys)) [0..<n]"
    by (simp only: map_upt_Suc) 
  moreover have "ys ! (0 mod length ys) = hd ys" using assms by (simp add: hd_conv_nth)
  moreover have "map (\<lambda>i. ys ! (Suc i mod length ys)) [0..<n] =
        map (\<lambda>i. rotate1 ys ! (i mod length (rotate1 ys))) [0..<n]"
  proof (rule map_cong[OF refl])
    fix i
    have "i mod length ys < length ys" using len by simp
    then have "rotate1 ys ! (i mod length ys) = ys ! (Suc (i mod length ys) mod length ys)"
      by (rule nth_rotate1)
    also have "Suc (i mod length ys) mod length ys = Suc i mod length ys" by (rule mod_Suc_eq)
    finally show "ys ! (Suc i mod length ys) = rotate1 ys ! (i mod length (rotate1 ys))" by simp
  qed
  ultimately show ?thesis by (simp add: cycle_of_def)
qed

lemma select_n_cursor:
  assumes "kinv_with s L" "L Q_READY = pre @ l # post" "lastp s = l"
  shows "\<exists>s'. select_n s n = Some (cycle_of (post @ pre @ [l]) n, s')"
  using assms
proof (induction n arbitrary: s pre l post)
  case 0
  then show ?case by (simp add: cycle_of_def)
next
  case (Suc n)
  let ?ys = "post @ pre @ [l]"
  let ?y = "hd ?ys"
  let ?s1 = "s\<lparr>lastp := ?y\<rparr>"
  have step: "scheduler_select_next s = Some (?y, ?s1)"
    using Suc.prems by (rule select_in)
  have k1: "kinv_with ?s1 L" using Suc.prems(1) by simp
  have "\<exists>pre' post'. L Q_READY = pre' @ ?y # post' \<and> post' @ pre' @ [?y] = rotate1 ?ys"
  proof (cases post)
    case (Cons y post2)
    then have "L Q_READY = (pre @ [l]) @ ?y # post2 \<and> post2 @ (pre @ [l]) @ [?y] = rotate1 ?ys"
      using Suc.prems(2) by simp
    then show ?thesis by blast
  next
    case Nil
    show ?thesis
    proof (cases pre)
      case Nil
      with \<open>post = []\<close> have "L Q_READY = [] @ ?y # [] \<and> [] @ [] @ [?y] = rotate1 ?ys"
        using Suc.prems(2) by simp
      then show ?thesis by blast
    next
      case (Cons y pre2)
      with \<open>post = []\<close> have "L Q_READY = [] @ ?y # (pre2 @ [l]) \<and> (pre2 @ [l]) @ [] @ [?y] = rotate1 ?ys"
        using Suc.prems(2) by simp
      then show ?thesis by blast
    qed
  qed
  then obtain pre' post' where d: "L Q_READY = pre' @ ?y # post'"
    and r: "post' @ pre' @ [?y] = rotate1 ?ys" by blast
  have "lastp ?s1 = ?y" by simp
  from Suc.IH[OF k1 d this] obtain s' where "select_n ?s1 n = Some (cycle_of (post' @ pre' @ [?y]) n, s')"
    by blast
  then have "select_n s (Suc n) = Some (?y # cycle_of (rotate1 ?ys) n, s')"
    using step r by simp
  moreover have "cycle_of ?ys (Suc n) = ?y # cycle_of (rotate1 ?ys) n"
    by (rule cycle_of_Suc) simp
  ultimately show ?case by auto
qed

lemma cycle_of_full: "cycle_of ys (length ys) = ys"
proof -
  have "map (\<lambda>i. ys ! (i mod length ys)) [0..<length ys] = map (\<lambda>i. ys ! i) [0..<length ys]"
    by (rule map_cong) simp_all
  then show ?thesis by (simp add: cycle_of_def map_nth)
qed

lemma kinv_ready_list:
  assumes "kinv s" "queue_list s Q_READY = Some xs"
  shows "\<exists>L. kinv_with s L \<and> L Q_READY = xs"
  using kinv_withD[OF assms(1)] assms(2) by (intro exI[of _ "\<lambda>q. the (queue_list s q)"]) simp

lemma round_robin:
  assumes k: "kinv s" and ql: "queue_list s Q_READY = Some xs" and ne: "xs \<noteq> []"
    and cur: "lastp s = 0 \<or> lastp s \<in> set (live_entries s)"
  shows "\<exists>k. \<forall>n. \<exists>s'. select_n s n = Some (cycle_of (rotate k xs) n, s')"
proof -
  from kinv_ready_list[OF k ql] obtain L where kw: "kinv_with s L" and L: "L Q_READY = xs" by blast
  from ne obtain x xs' where xs: "xs = x # xs'" by (cases xs) auto
  show ?thesis
  proof (cases "lastp s \<in> set xs")
    case True
    then obtain pre post where d: "xs = pre @ lastp s # post" by (auto simp: in_set_conv_decomp)
    have r: "rotate (length (pre @ [lastp s])) xs = post @ pre @ [lastp s]"
      using rotate_append[of "pre @ [lastp s]" post] d by simp
    have "\<forall>n. \<exists>s'. select_n s n = Some (cycle_of (post @ pre @ [lastp s]) n, s')"
      using select_n_cursor[OF kw _ refl, of pre post] L d by simp
    then show ?thesis using r by metis
  next
    case False
    show ?thesis
    proof (cases "lastp s = 0")
      case True
      let ?s0 = "s\<lparr>lastp := x\<rparr>"
      have k0: "kinv_with ?s0 L" using kw by simp
      have d0: "L Q_READY = [] @ x # xs'" using L xs by simp
      have c: "\<And>n. \<exists>s'. select_n ?s0 n = Some (cycle_of (xs' @ [] @ [x]) n, s')"
        using select_n_cursor[OF k0 d0] by simp
      have ch: "chain (store s) (ready_queue s) (x # xs') 0"
        using kinv_with_chain(1)[OF kw, of Q_READY] L xs by simp
      then have rq: "ready_queue s = x" "x \<noteq> 0" by auto
      have e: "scheduler_select_next s = scheduler_select_next ?s0"
        using select_null_eq[OF True] rq by simp
      have "\<exists>s'. select_n s n = Some (cycle_of (rotate 1 xs) n, s')" for n
      proof (cases n)
        case 0
        then show ?thesis by (simp add: cycle_of_def)
      next
        case (Suc m)
        have "select_n s (Suc m) = select_n ?s0 (Suc m)" using e by simp
        with c[of "Suc m"] Suc xs show ?thesis by simp
      qed
      then show ?thesis by blast
    next
      case nz: False
      with cur have live: "lastp s \<in> set (live_entries s)" by simp
      have out: "lastp s \<notin> set (L Q_READY)" using False L by simp
      have st: "scheduler_select_next s = Some (x, s\<lparr>lastp := x\<rparr>)"
        using kw _ live out by (rule select_out) (simp add: L xs)
      let ?s1 = "s\<lparr>lastp := x\<rparr>"
      have k1: "kinv_with ?s1 L" using kw by simp
      have d1: "L Q_READY = [] @ x # xs'" using L xs by simp
      have c: "\<And>n. \<exists>s'. select_n ?s1 n = Some (cycle_of (rotate1 xs) n, s')"
        using select_n_cursor[OF k1 d1] xs by simp
      have "\<exists>s'. select_n s n = Some (cycle_of (rotate 0 xs) n, s')" for n
      proof (cases n)
        case 0
        then show ?thesis by (simp add: cycle_of_def)
      next
        case (Suc m)
        from c[of m] obtain s' where "select_n ?s1 m = Some (cycle_of (rotate1 xs) m, s')" by blast
        then have "select_n s (Suc m) = Some (x # cycle_of (rotate1 xs) m, s')" using st by simp
        moreover have "cycle_of xs (Suc m) = hd xs # cycle_of (rotate1 xs) m"
          using ne by (rule cycle_of_Suc)
        ultimately show ?thesis using Suc xs by simp
      qed
      then show ?thesis by blast
    qed
  qed
qed

section \<open>Properties\<close>

text \<open>
  C9. A call of \<^verbatim>\<open>process_switch\<close> whose destination \<open>to\<close> is NULL returns at once and
  leaves the whole state as it was: no register is saved, no state field is written and
  the current process stays.
\<close>

theorem process_switch_null_to: "process_switch s from 0 = Some s"
  by (simp add: process_switch_def)

end
